theory Spec2Isabelle
  imports Main "HOL-Library.Sublist"
begin

section \<open>JavaScript values used by statemanager.js\<close>

text \<open>
  Objects live in a heap and are referred to by address; the heap is a list, and a
  \<^verbatim>\<open>new State(...)\<close> that gets attached to the tree is stored at the next free index
  (one that \<^verbatim>\<open>addSubstate\<close> refuses is garbage and is not stored).
\<close>

type_synonym addr = nat

text \<open>
  A state name, and an element of a state description array, is a JavaScript string or
  \<^verbatim>\<open>undefined\<close> (\<^verbatim>\<open>stateDescr[stateDepth - 1]\<close> of an empty array).
\<close>

datatype jsname = Undefined | Str string

text \<open>Conversion of a value to a property key (\<^verbatim>\<open>name in obj\<close>, \<^verbatim>\<open>obj[name]\<close>).\<close>

fun to_key :: "jsname \<Rightarrow> string" where
  "to_key Undefined = ''undefined''"
| "to_key (Str s) = s"

text \<open>
  \<^verbatim>\<open>this._substates = {}\<close> is a plain object, so \<^verbatim>\<open>in\<close> and \<^verbatim>\<open>[]\<close> also see the
  properties it inherits from \<^verbatim>\<open>Object.prototype\<close> (ECMAScript 5.1, 15.2.4 and B.2).
\<close>

definition Object_prototype_keys :: "string list" where
  "Object_prototype_keys =
     [''constructor'', ''toString'', ''toLocaleString'', ''valueOf'', ''hasOwnProperty'',
      ''isPrototypeOf'', ''propertyIsEnumerable'', ''__proto__'', ''__defineGetter__'',
      ''__defineSetter__'', ''__lookupGetter__'', ''__lookupSetter__'']"

text \<open>
  What a lookup in \<^verbatim>\<open>_substates\<close> yields: a State object, or the value of an inherited
  property (a function or \<^verbatim>\<open>Object.prototype\<close>), which has none of the functions of State.
\<close>

datatype objref = StateObj addr | ProtoValue string

text \<open>The two strings the program throws, and the TypeError of calling what is not a function.\<close>

datatype error = SubstateAlreadyExists | UnknownSubstate | TypeError

datatype completion = Normal | Throw error

text \<open>
  The context object: whether \<^verbatim>\<open>typeof context.enter === 'function'\<close>, the same for
  \<^verbatim>\<open>exit\<close>, and the \<^verbatim>\<open>defaultSubstate\<close> property, a string (\<open>None\<close> when absent).
\<close>

record Context =
  has_enter :: bool
  has_exit :: bool
  defaultSubstate :: "string option"

text \<open>
  The functions of the prototype that the constructor stores in \<^verbatim>\<open>this.enter\<close> and
  \<^verbatim>\<open>this.exit\<close>.
\<close>

datatype func = callContextEnterFunc | callContextExitFunc | dummyFunc

record State =
  substates :: "(string \<times> addr) list"
  name :: jsname
  context_obj :: "Context option"
  enter_func :: func
  exit_func :: func

text \<open>The constructor \<^verbatim>\<open>State(name, context)\<close>.\<close>

definition new_State :: "jsname \<Rightarrow> Context option \<Rightarrow> State" where
  "new_State n c =
     \<lparr>substates = [], name = n, context_obj = c,
      enter_func = (case c of None \<Rightarrow> dummyFunc
               | Some cx \<Rightarrow> if has_enter cx then callContextEnterFunc else dummyFunc),
      exit_func = (case c of None \<Rightarrow> dummyFunc
              | Some cx \<Rightarrow> if has_exit cx then callContextExitFunc else dummyFunc)\<rparr>"

text \<open>
  The caller's callbacks are outside the program. An invocation of \<^verbatim>\<open>state.enter()\<close> or
  \<^verbatim>\<open>state.exit()\<close> is recorded as an event with the address of the state and the
  argument handed to the context's function (\<open>None\<close> when the dummy function ran).
  In this part the callbacks do nothing else: they return and leave the manager alone.
  What they can do to the manager is added in the part on callbacks that call the manager.
\<close>

datatype event = Enter addr "jsname option" | Exit addr "jsname option"

fun run_func :: "func \<Rightarrow> State \<Rightarrow> jsname option" where
  "run_func dummyFunc s = None"
| "run_func callContextEnterFunc s = Some (name s)"
| "run_func callContextExitFunc s = Some (name s)"

definition enter_event :: "State list \<Rightarrow> addr \<Rightarrow> event" where
  "enter_event h a = Enter a (run_func (enter_func (h ! a)) (h ! a))"

definition exit_event :: "State list \<Rightarrow> addr \<Rightarrow> event" where
  "exit_event h a = Exit a (run_func (exit_func (h ! a)) (h ! a))"

section \<open>State\<close>

text \<open>\<^verbatim>\<open>k in this._substates\<close> and \<^verbatim>\<open>this._substates[k]\<close> (for a \<open>k\<close> that is in).\<close>

definition in_substates :: "State \<Rightarrow> string \<Rightarrow> bool" where
  "in_substates s k \<longleftrightarrow> k \<in> set (map fst (substates s)) \<or> k \<in> set Object_prototype_keys"

definition substates_get :: "State \<Rightarrow> string \<Rightarrow> objref" where
  "substates_get s k = (case map_of (substates s) k of Some a \<Rightarrow> StateObj a | None \<Rightarrow> ProtoValue k)"

text \<open>
  \<^verbatim>\<open>addSubstate\<close>: the new state object gets the next free address. The assignment is
  reached only for a key that is not in the object, so it adds an entry.
\<close>

definition addSubstate :: "State list \<Rightarrow> addr \<Rightarrow> State \<Rightarrow> completion \<times> State list" where
  "addSubstate h this substate =
     (let substateName = to_key (name substate) in
      if in_substates (h ! this) substateName then (Throw SubstateAlreadyExists, h)
      else (Normal,
            (h @ [substate])
              [this := (h ! this)\<lparr>substates := substates (h ! this) @ [(substateName, length h)]\<rparr>]))"

fun getSubstate :: "State list \<Rightarrow> objref \<Rightarrow> jsname \<Rightarrow> error + objref" where
  "getSubstate h (StateObj a) n =
     (if in_substates (h ! a) (to_key n) then Inr (substates_get (h ! a) (to_key n))
      else Inl UnknownSubstate)"
| "getSubstate h (ProtoValue k) n = Inl TypeError"

text \<open>\<^verbatim>\<open>getDefaultSubstate\<close>; the empty string is falsy.\<close>

fun getDefaultSubstate :: "State list \<Rightarrow> objref \<Rightarrow> error + objref option" where
  "getDefaultSubstate h (StateObj a) =
     (case context_obj (h ! a) of
        None \<Rightarrow> Inr None
      | Some c \<Rightarrow>
          (case defaultSubstate c of
             None \<Rightarrow> Inr None
           | Some n \<Rightarrow>
               if n \<noteq> [] \<and> in_substates (h ! a) n then Inr (Some (substates_get (h ! a) n))
               else Inr None))"
| "getDefaultSubstate h (ProtoValue k) = Inl TypeError"

section \<open>StateManager\<close>

text \<open>
  The private variables of a manager, \<^verbatim>\<open>_worldState\<close> (always the object at address 0 of
  its heap) and \<^verbatim>\<open>_currentStateDescr\<close>, and the log of the calls made so far.
\<close>

record StateManager =
  heap :: "State list"
  currentStateDescr :: "jsname list"
  calls :: "event list"

definition worldState :: addr where
  "worldState = 0"

definition new_StateManager :: StateManager where
  "new_StateManager =
     \<lparr>heap = [new_State (Str ''__WORLD__'') None], currentStateDescr = [], calls = []\<rparr>"

fun call_enter :: "StateManager \<Rightarrow> objref \<Rightarrow> completion \<times> StateManager" where
  "call_enter m (StateObj a) = (Normal, m\<lparr>calls := calls m @ [enter_event (heap m) a]\<rparr>)"
| "call_enter m (ProtoValue k) = (Throw TypeError, m)"

fun call_exit :: "StateManager \<Rightarrow> objref \<Rightarrow> completion \<times> StateManager" where
  "call_exit m (StateObj a) = (Normal, m\<lparr>calls := calls m @ [exit_event (heap m) a]\<rparr>)"
| "call_exit m (ProtoValue k) = (Throw TypeError, m)"

text \<open>\<^verbatim>\<open>String.prototype.split\<close> with a one-character separator, and \<^verbatim>\<open>Array.prototype.join\<close>.\<close>

fun js_split :: "char \<Rightarrow> string \<Rightarrow> string list" where
  "js_split sep [] = [[]]"
| "js_split sep (c # cs) =
     (if c = sep then [] # js_split sep cs
      else (case js_split sep cs of [] \<Rightarrow> [[c]] | w # ws \<Rightarrow> (c # w) # ws))"

fun js_join :: "string \<Rightarrow> jsname list \<Rightarrow> string" where
  "js_join sep [] = []"
| "js_join sep [x] = (case x of Undefined \<Rightarrow> [] | Str s \<Rightarrow> s)"
| "js_join sep (x # y # ys) =
     (case x of Undefined \<Rightarrow> [] | Str s \<Rightarrow> s) @ sep @ js_join sep (y # ys)"

definition stateDescrFromStateStr :: "string \<Rightarrow> jsname list" where
  "stateDescrFromStateStr stateStr =
     (if stateStr = [] then [] else map Str (js_split CHR ''.'' stateStr))"

function computeChangeLevel_loop :: "jsname list \<Rightarrow> jsname list \<Rightarrow> nat \<Rightarrow> nat" where
  "computeChangeLevel_loop cur newStateDescr changeLevel =
     (if changeLevel < length newStateDescr \<and> changeLevel < length cur
         \<and> newStateDescr ! changeLevel = cur ! changeLevel
      then computeChangeLevel_loop cur newStateDescr (changeLevel + 1)
      else changeLevel)"
  by pat_completeness auto
termination
  by (relation "measure (\<lambda>(cur, new, i). length new - i)") auto

declare computeChangeLevel_loop.simps [simp del]

definition computeChangeLevel :: "StateManager \<Rightarrow> jsname list \<Rightarrow> nat" where
  "computeChangeLevel m newStateDescr =
     computeChangeLevel_loop (currentStateDescr m) newStateDescr 0"

subsection \<open>registerState\<close>

text \<open>The loop of \<^verbatim>\<open>registerState\<close> over the segments before the last one.\<close>

fun registerState_loop :: "State list \<Rightarrow> objref \<Rightarrow> jsname list \<Rightarrow> error + objref" where
  "registerState_loop h parentState [] = Inr parentState"
| "registerState_loop h parentState (n # ns) =
     (case getSubstate h parentState n of
        Inl e \<Rightarrow> Inl e
      | Inr s \<Rightarrow> registerState_loop h s ns)"

definition registerState :: "StateManager \<Rightarrow> string \<Rightarrow> Context option \<Rightarrow> completion \<times> StateManager" where
  "registerState m stateStr ctx =
     (let stateDescr = stateDescrFromStateStr stateStr;
          stateDepth = length stateDescr
      in case registerState_loop (heap m) (StateObj worldState) (take (stateDepth - 1) stateDescr) of
           Inl e \<Rightarrow> (Throw e, m)
         | Inr (ProtoValue k) \<Rightarrow> (Throw TypeError, m)
         | Inr (StateObj p) \<Rightarrow>
             (case addSubstate (heap m) p
                     (new_State (if stateDepth = 0 then Undefined else stateDescr ! (stateDepth - 1)) ctx) of
                (c, h') \<Rightarrow> (c, m\<lparr>heap := h'\<rparr>)))"

subsection \<open>changeState\<close>

text \<open>
  The exit walk (lines 150 to 155): \<open>i\<close> is the loop index, the list holds the segments
  \<^verbatim>\<open>_currentStateDescr[i], ...\<close> still to visit.
\<close>

fun collectExitStates ::
  "State list \<Rightarrow> objref \<Rightarrow> jsname list \<Rightarrow> nat \<Rightarrow> nat \<Rightarrow> bool \<Rightarrow> objref list \<Rightarrow> error + objref list" where
  "collectExitStates h state [] i changeLevel forceAll exitStates = Inr exitStates"
| "collectExitStates h state (n # ns) i changeLevel forceAll exitStates =
     (case getSubstate h state n of
        Inl e \<Rightarrow> Inl e
      | Inr s \<Rightarrow>
          collectExitStates h s ns (i + 1) changeLevel forceAll
            (if i \<ge> changeLevel \<or> forceAll then exitStates @ [s] else exitStates))"

text \<open>\<^verbatim>\<open>while (exitStates.length > 0) exitStates.pop().exit();\<close>\<close>

function callExits :: "StateManager \<Rightarrow> objref list \<Rightarrow> completion \<times> StateManager" where
  "callExits m exitStates =
     (if exitStates = [] then (Normal, m)
      else (case call_exit m (last exitStates) of
              (Throw e, m') \<Rightarrow> (Throw e, m')
            | (Normal, m') \<Rightarrow> callExits m' (butlast exitStates)))"
  by pat_completeness auto
termination
  by (relation "measure (\<lambda>(m, xs). length xs)") auto

declare callExits.simps [simp del]

text \<open>The enter walk (lines 161 to 167); it also yields the last value of \<^verbatim>\<open>state\<close>.\<close>

fun enterStates ::
  "StateManager \<Rightarrow> objref \<Rightarrow> jsname list \<Rightarrow> nat \<Rightarrow> nat \<Rightarrow> bool \<Rightarrow> (error + objref) \<times> StateManager" where
  "enterStates m state [] i changeLevel forceAll = (Inr state, m)"
| "enterStates m state (n # ns) i changeLevel forceAll =
     (case getSubstate (heap m) state n of
        Inl e \<Rightarrow> (Inl e, m)
      | Inr s \<Rightarrow>
          if i \<ge> changeLevel \<or> forceAll then
            (case call_enter m s of
               (Throw e, m') \<Rightarrow> (Inl e, m')
             | (Normal, m') \<Rightarrow> enterStates m' s ns (i + 1) changeLevel forceAll)
          else enterStates m s ns (i + 1) changeLevel forceAll)"

text \<open>
  The \<^verbatim>\<open>while (true)\<close> loop that enters default substates. Nothing in the loop bounds
  it, so it is a partial function: \<open>None\<close> stands for a loop that never ends.
\<close>

fun getName :: "State list \<Rightarrow> objref \<Rightarrow> error + jsname" where
  "getName h (StateObj a) = Inr (name (h ! a))"
| "getName h (ProtoValue k) = Inl TypeError"

partial_function (option) enterDefaultSubstates ::
  "StateManager \<Rightarrow> objref \<Rightarrow> (completion \<times> StateManager) option" where
  "enterDefaultSubstates m state =
     (case getDefaultSubstate (heap m) state of
        Inl e \<Rightarrow> Some (Throw e, m)
      | Inr None \<Rightarrow> Some (Normal, m)
      | Inr (Some s) \<Rightarrow>
          (case call_enter m s of
             (Throw e, m') \<Rightarrow> Some (Throw e, m')
           | (Normal, m') \<Rightarrow>
               (case getName (heap m') s of
                  Inl e \<Rightarrow> Some (Throw e, m')
                | Inr n \<Rightarrow>
                    enterDefaultSubstates
                      (m'\<lparr>currentStateDescr := currentStateDescr m' @ [n]\<rparr>) s)))"

declare enterDefaultSubstates.simps [code]

definition changeState :: "StateManager \<Rightarrow> string \<Rightarrow> bool \<Rightarrow> (completion \<times> StateManager) option" where
  "changeState m newStateStr forceAll =
     (let newStateDescr = stateDescrFromStateStr newStateStr;
          changeLevel = computeChangeLevel m newStateDescr
      in case collectExitStates (heap m) (StateObj worldState) (currentStateDescr m) 0
                changeLevel forceAll [] of
           Inl e \<Rightarrow> Some (Throw e, m)
         | Inr exitStates \<Rightarrow>
             (case callExits m exitStates of
                (Throw e, m1) \<Rightarrow> Some (Throw e, m1)
              | (Normal, m1) \<Rightarrow>
                  (case enterStates m1 (StateObj worldState) newStateDescr 0 changeLevel forceAll of
                     (Inl e, m2) \<Rightarrow> Some (Throw e, m2)
                   | (Inr state, m2) \<Rightarrow>
                       enterDefaultSubstates (m2\<lparr>currentStateDescr := newStateDescr\<rparr>) state)))"

definition currentState :: "StateManager \<Rightarrow> string" where
  "currentState m = js_join ''.'' (currentStateDescr m)"

section \<open>Resolved paths, well-formed heaps and reachable managers\<close>

text \<open>
  The states a state description names, walking from the state at \<open>a\<close> by the own
  entries of the substates: the addresses of the states along the description, or \<open>None\<close>
  when a segment is not registered.
\<close>

fun nodes_of :: "State list \<Rightarrow> addr \<Rightarrow> jsname list \<Rightarrow> addr list option" where
  "nodes_of h a [] = Some []"
| "nodes_of h a (n # ns) =
     (case map_of (substates (h ! a)) (to_key n) of
        None \<Rightarrow> None
      | Some c \<Rightarrow> (case nodes_of h c ns of None \<Rightarrow> None | Some cs \<Rightarrow> Some (c # cs)))"

text \<open>
  What \<^verbatim>\<open>registerState\<close> maintains of the heap. The world state is there and has no
  context. A substate was stored after its parent, is in the heap, has a key that no
  plain object inherits, and is named by its key (the one state named \<^verbatim>\<open>undefined\<close> can
  only hang under the world state). No state has a key twice, and no state object is the
  substate of two states or under two keys.
\<close>

definition wf_heap :: "State list \<Rightarrow> bool" where
  "wf_heap h \<longleftrightarrow>
     h \<noteq> [] \<and> context_obj (h ! worldState) = None
     \<and> (\<forall>a<length h. \<forall>k c. (k, c) \<in> set (substates (h ! a)) \<longrightarrow>
           a < c \<and> c < length h \<and> k \<notin> set Object_prototype_keys
           \<and> (name (h ! c) = Str k
                \<or> (a = worldState \<and> name (h ! c) = Undefined \<and> k = ''undefined'')))
     \<and> (\<forall>a<length h. distinct (map fst (substates (h ! a))))
     \<and> (\<forall>a<length h. \<forall>b<length h. \<forall>ka kb c.
           (ka, c) \<in> set (substates (h ! a)) \<and> (kb, c) \<in> set (substates (h ! b)) \<longrightarrow>
           a = b \<and> ka = kb)"

definition invariant :: "StateManager \<Rightarrow> bool" where
  "invariant m \<longleftrightarrow>
     wf_heap (heap m)
     \<and> nodes_of (heap m) worldState (currentStateDescr m) \<noteq> None
     \<and> Undefined \<notin> set (currentStateDescr m)"

text \<open>
  The managers a caller can get: the variables of a manager are private, so its state is
  what a sequence of calls of the two public functions leaves, starting from
  \<^verbatim>\<open>new StateManager()\<close>. A call that threw counts: the caller can catch and go on.
\<close>

inductive reachable :: "StateManager \<Rightarrow> bool" where
  reachable_new: "reachable new_StateManager"
| reachable_registerState:
    "reachable m \<Longrightarrow> registerState m stateStr ctx = (c, m') \<Longrightarrow> reachable m'"
| reachable_changeState:
    "reachable m \<Longrightarrow> changeState m newStateStr forceAll = Some (c, m') \<Longrightarrow> reachable m'"

text \<open>
  The default substates below a state: \<open>default_chain h a cs\<close> when \<open>cs\<close> are the states
  that \<^verbatim>\<open>getDefaultSubstate\<close> yields one after the other from \<open>a\<close>, up to one that has
  no default substate; \<open>default_path\<close> is a chain that may stop earlier.
\<close>

inductive default_chain :: "State list \<Rightarrow> addr \<Rightarrow> addr list \<Rightarrow> bool" where
  default_chain_stop:
    "getDefaultSubstate h (StateObj a) = Inr None \<Longrightarrow> default_chain h a []"
| default_chain_step:
    "getDefaultSubstate h (StateObj a) = Inr (Some (StateObj c)) \<Longrightarrow> default_chain h c cs
     \<Longrightarrow> default_chain h a (c # cs)"

inductive default_path :: "State list \<Rightarrow> addr \<Rightarrow> addr list \<Rightarrow> bool" where
  default_path_Nil: "default_path h a []"
| default_path_Cons:
    "getDefaultSubstate h (StateObj a) = Inr (Some (StateObj c)) \<Longrightarrow> default_path h c cs
     \<Longrightarrow> default_path h a (c # cs)"

text \<open>
  The manager after enter calls, after exit calls, after the cascade has entered and
  pushed the states \<open>cs\<close>, and after the two walks of a transition that exits among \<open>old\<close>
  and enters among \<open>as\<close>.
\<close>

definition entered :: "StateManager \<Rightarrow> addr list \<Rightarrow> StateManager" where
  "entered m cs = m\<lparr>calls := calls m @ map (enter_event (heap m)) cs\<rparr>"

definition exited :: "StateManager \<Rightarrow> addr list \<Rightarrow> StateManager" where
  "exited m cs = m\<lparr>calls := calls m @ map (exit_event (heap m)) cs\<rparr>"

definition cascaded :: "StateManager \<Rightarrow> addr list \<Rightarrow> StateManager" where
  "cascaded m cs =
     m\<lparr>calls := calls m @ map (enter_event (heap m)) cs,
       currentStateDescr := currentStateDescr m @ map (\<lambda>c. name (heap m ! c)) cs\<rparr>"

definition transitioned ::
  "StateManager \<Rightarrow> bool \<Rightarrow> jsname list \<Rightarrow> addr list \<Rightarrow> addr list \<Rightarrow> StateManager" where
  "transitioned m forceAll newStateDescr old as =
     entered (exited m (rev (if forceAll then old else drop (computeChangeLevel m newStateDescr) old)))
       (if forceAll then as else drop (computeChangeLevel m newStateDescr) as)"

text \<open>The heap after \<^verbatim>\<open>addSubstate\<close> has stored the state \<open>st\<close> under the state at \<open>p\<close>.\<close>

definition attach :: "State list \<Rightarrow> addr \<Rightarrow> State \<Rightarrow> State list" where
  "attach h p st =
     (h @ [st])[p := (h ! p)\<lparr>substates := substates (h ! p) @ [(to_key (name st), length h)]\<rparr>]"

section \<open>Callbacks that call the manager\<close>

text \<open>
  Above, the functions of a context only leave an event in the log. They are the caller's
  code and can call the manager back. Here \<^verbatim>\<open>this._context.enter(this._name)\<close> and
  \<^verbatim>\<open>this._context.exit(this._name)\<close> run a function of the caller: for the state object
  at each address, what the function of its context does to the manager when it is called
  with the name, and whether it returns or throws. The walks and the loop of
  \<^verbatim>\<open>changeState\<close> are the same as above, with these calls in place of the log entries.
\<close>

type_synonym caller_function = "jsname \<Rightarrow> StateManager \<Rightarrow> completion \<times> StateManager"

record Caller =
  on_enter :: "addr \<Rightarrow> caller_function"
  on_exit :: "addr \<Rightarrow> caller_function"

fun run_func_with :: "Caller \<Rightarrow> func \<Rightarrow> addr \<Rightarrow> StateManager \<Rightarrow> completion \<times> StateManager" where
  "run_func_with cb dummyFunc a m = (Normal, m)"
| "run_func_with cb callContextEnterFunc a m = on_enter cb a (name (heap m ! a)) m"
| "run_func_with cb callContextExitFunc a m = on_exit cb a (name (heap m ! a)) m"

fun call_enter_with :: "Caller \<Rightarrow> StateManager \<Rightarrow> objref \<Rightarrow> completion \<times> StateManager" where
  "call_enter_with cb m (StateObj a) =
     run_func_with cb (enter_func (heap m ! a)) a (m\<lparr>calls := calls m @ [enter_event (heap m) a]\<rparr>)"
| "call_enter_with cb m (ProtoValue k) = (Throw TypeError, m)"

fun call_exit_with :: "Caller \<Rightarrow> StateManager \<Rightarrow> objref \<Rightarrow> completion \<times> StateManager" where
  "call_exit_with cb m (StateObj a) =
     run_func_with cb (exit_func (heap m ! a)) a (m\<lparr>calls := calls m @ [exit_event (heap m) a]\<rparr>)"
| "call_exit_with cb m (ProtoValue k) = (Throw TypeError, m)"

function callExits_with :: "Caller \<Rightarrow> StateManager \<Rightarrow> objref list \<Rightarrow> completion \<times> StateManager" where
  "callExits_with cb m exitStates =
     (if exitStates = [] then (Normal, m)
      else (case call_exit_with cb m (last exitStates) of
              (Throw e, m') \<Rightarrow> (Throw e, m')
            | (Normal, m') \<Rightarrow> callExits_with cb m' (butlast exitStates)))"
  by pat_completeness auto
termination
  by (relation "measure (\<lambda>(cb, m, xs). length xs)") auto

declare callExits_with.simps [simp del]

fun enterStates_with ::
  "Caller \<Rightarrow> StateManager \<Rightarrow> objref \<Rightarrow> jsname list \<Rightarrow> nat \<Rightarrow> nat \<Rightarrow> bool
   \<Rightarrow> (error + objref) \<times> StateManager" where
  "enterStates_with cb m state [] i changeLevel forceAll = (Inr state, m)"
| "enterStates_with cb m state (n # ns) i changeLevel forceAll =
     (case getSubstate (heap m) state n of
        Inl e \<Rightarrow> (Inl e, m)
      | Inr s \<Rightarrow>
          if i \<ge> changeLevel \<or> forceAll then
            (case call_enter_with cb m s of
               (Throw e, m') \<Rightarrow> (Inl e, m')
             | (Normal, m') \<Rightarrow> enterStates_with cb m' s ns (i + 1) changeLevel forceAll)
          else enterStates_with cb m s ns (i + 1) changeLevel forceAll)"

partial_function (option) enterDefaultSubstates_with ::
  "Caller \<Rightarrow> StateManager \<Rightarrow> objref \<Rightarrow> (completion \<times> StateManager) option" where
  "enterDefaultSubstates_with cb m state =
     (case getDefaultSubstate (heap m) state of
        Inl e \<Rightarrow> Some (Throw e, m)
      | Inr None \<Rightarrow> Some (Normal, m)
      | Inr (Some s) \<Rightarrow>
          (case call_enter_with cb m s of
             (Throw e, m') \<Rightarrow> Some (Throw e, m')
           | (Normal, m') \<Rightarrow>
               (case getName (heap m') s of
                  Inl e \<Rightarrow> Some (Throw e, m')
                | Inr n \<Rightarrow>
                    enterDefaultSubstates_with cb
                      (m'\<lparr>currentStateDescr := currentStateDescr m' @ [n]\<rparr>) s)))"

declare enterDefaultSubstates_with.simps [code]

definition changeState_with ::
  "Caller \<Rightarrow> StateManager \<Rightarrow> string \<Rightarrow> bool \<Rightarrow> (completion \<times> StateManager) option" where
  "changeState_with cb m newStateStr forceAll =
     (let newStateDescr = stateDescrFromStateStr newStateStr;
          changeLevel = computeChangeLevel m newStateDescr
      in case collectExitStates (heap m) (StateObj worldState) (currentStateDescr m) 0
                changeLevel forceAll [] of
           Inl e \<Rightarrow> Some (Throw e, m)
         | Inr exitStates \<Rightarrow>
             (case callExits_with cb m exitStates of
                (Throw e, m1) \<Rightarrow> Some (Throw e, m1)
              | (Normal, m1) \<Rightarrow>
                  (case enterStates_with cb m1 (StateObj worldState) newStateDescr 0 changeLevel forceAll of
                     (Inl e, m2) \<Rightarrow> Some (Throw e, m2)
                   | (Inr state, m2) \<Rightarrow>
                       enterDefaultSubstates_with cb (m2\<lparr>currentStateDescr := newStateDescr\<rparr>) state)))"

text \<open>
  A caller whose enter function registers, under the state it is called for, a substate
  \<^verbatim>\<open>c\<close> with the same context, which names \<^verbatim>\<open>c\<close> as default substate:
  \<^verbatim>\<open>
  var ctx = { defaultSubstate: 'c', enter: function (name) {
      var cur = m.currentState();
      m.registerState((cur === '' ? name : cur + '.' + name) + '.c', ctx); } };
  \<close>
\<close>

definition looping_context :: "Context option" where
  "looping_context = Some \<lparr>has_enter = True, has_exit = False, defaultSubstate = Some ''c''\<rparr>"



definition silent :: Caller where
  "silent = \<lparr>on_enter = (\<lambda>a n m. (Normal, m)), on_exit = (\<lambda>a n m. (Normal, m))\<rparr>"


section \<open>Example managers\<close>

text \<open>
  A context with both callbacks and no default substate, a tree registered with it, and
  the manager left by a call of \<^verbatim>\<open>changeState\<close>, whether it returned or threw.
\<close>

definition with_callbacks :: "Context option" where
  "with_callbacks = Some \<lparr>has_enter = True, has_exit = True, defaultSubstate = None\<rparr>"

definition register_all :: "StateManager \<Rightarrow> string list \<Rightarrow> StateManager" where
  "register_all m paths = fold (\<lambda>p m'. snd (registerState m' p with_callbacks)) paths m"

definition example_tree :: StateManager where
  "example_tree =
     register_all new_StateManager [''a'', ''a.b'', ''a.b.c'', ''a.b.d'', ''a.c'', ''a.c.d'']"

definition transition :: "StateManager \<Rightarrow> string \<Rightarrow> bool \<Rightarrow> StateManager" where
  "transition m p forceAll = (case changeState m p forceAll of None \<Rightarrow> m | Some (c, m') \<Rightarrow> m')"

text \<open>
  A context that also names a default substate, and the chain of the test at the end of
  the source file in small: \<^verbatim>\<open>a\<close> defaults to \<^verbatim>\<open>b\<close>, which defaults to \<^verbatim>\<open>c\<close>.
\<close>

definition with_default :: "string \<Rightarrow> Context option" where
  "with_default d = Some \<lparr>has_enter = True, has_exit = True, defaultSubstate = Some d\<rparr>"

definition default_tree :: StateManager where
  "default_tree =
     snd (registerState
       (snd (registerState
         (snd (registerState new_StateManager ''a'' (with_default ''b'')))
         ''a.b'' (with_default ''c'')))
       ''a.b.c'' with_callbacks)"

section \<open>The change level\<close>

lemma computeChangeLevel_loop_lcp:
  "i \<le> length cur \<Longrightarrow> i \<le> length new \<Longrightarrow>
   computeChangeLevel_loop cur new i = i + length (longest_common_prefix (drop i cur) (drop i new))"
proof (induction cur new i rule: computeChangeLevel_loop.induct)
  case (1 cur new i)
  show ?case
  proof (cases "i < length new \<and> i < length cur \<and> new ! i = cur ! i")
    case True
    then have lt: "i < length new" "i < length cur" and e: "new ! i = cur ! i"
      by simp_all
    from lt have "drop i cur = cur ! i # drop (Suc i) cur" "drop i new = new ! i # drop (Suc i) new"
      by (simp_all add: Cons_nth_drop_Suc)
    then have d: "drop i cur = cur ! i # drop (Suc i) cur" "drop i new = cur ! i # drop (Suc i) new"
      by (simp_all only: e)
    from True "1.IH" have "computeChangeLevel_loop cur new (i + 1)
        = (i + 1) + length (longest_common_prefix (drop (i + 1) cur) (drop (i + 1) new))"
      by simp
    with True d show ?thesis
      by (subst computeChangeLevel_loop.simps) simp
  next
    case False
    have "longest_common_prefix (drop i cur) (drop i new) = []"
    proof (cases "i < length new \<and> i < length cur")
      case True
      with False have "cur ! i \<noteq> new ! i" by auto
      moreover from True have "drop i cur = cur ! i # drop (Suc i) cur" "drop i new = new ! i # drop (Suc i) new"
        by (simp_all add: Cons_nth_drop_Suc)
      ultimately show ?thesis by simp
    next
      case False
      with "1.prems" have "drop i cur = [] \<or> drop i new = []" by auto
      then show ?thesis by auto
    qed
    with False show ?thesis
      by (subst computeChangeLevel_loop.simps) auto
  qed
qed

lemma computeChangeLevel_lcp:
  "computeChangeLevel m new = length (longest_common_prefix (currentStateDescr m) new)"
  by (simp add: computeChangeLevel_def computeChangeLevel_loop_lcp)

lemma lcp_nth:
  "i < length (longest_common_prefix xs ys) \<Longrightarrow> xs ! i = ys ! i"
proof -
  assume a: "i < length (longest_common_prefix xs ys)"
  have "prefix (longest_common_prefix xs ys) xs" "prefix (longest_common_prefix xs ys) ys"
    by (rule longest_common_prefix_prefix1, rule longest_common_prefix_prefix2)
  then obtain us vs where "xs = longest_common_prefix xs ys @ us" "ys = longest_common_prefix xs ys @ vs"
    by (auto simp: prefix_def)
  then have "xs ! i = (longest_common_prefix xs ys @ us) ! i" "ys ! i = (longest_common_prefix xs ys @ vs) ! i"
    by simp_all
  with a show ?thesis by (simp add: nth_append)
qed

lemma lcp_greatest:
  assumes "k \<le> length xs" "k \<le> length ys" "\<forall>i<k. xs ! i = ys ! i"
  shows "k \<le> length (longest_common_prefix xs ys)"
proof -
  from assms have eq: "take k xs = take k ys"
    by (intro nth_equalityI) auto
  have p1: "prefix (take k xs) xs"
    by (rule take_is_prefix)
  have "prefix (take k ys) ys"
    by (rule take_is_prefix)
  then have p2: "prefix (take k xs) ys"
    by (simp add: eq)
  from p1 p2 have "prefix (take k xs) (longest_common_prefix xs ys)"
    by (rule longest_common_prefix_max_prefix)
  then have "length (take k xs) \<le> length (longest_common_prefix xs ys)"
    by (rule prefix_length_le)
  with assms show ?thesis by simp
qed

section \<open>Registration\<close>

lemma addSubstate_cases:
  "addSubstate h p st = (Throw SubstateAlreadyExists, h)
   \<or> addSubstate h p st
       = (Normal, (h @ [st])[p := (h ! p)\<lparr>substates := substates (h ! p) @ [(to_key (name st), length h)]\<rparr>])"
  by (simp add: addSubstate_def Let_def)

lemma name_new_State [simp]: "name (new_State n c) = n"
  by (simp add: new_State_def)

lemma registerState_cases:
  "(\<exists>e. registerState m stateStr ctx = (Throw e, m))
   \<or> (\<exists>p k. registerState m stateStr ctx
        = (Normal, m\<lparr>heap := (heap m @ [new_State k ctx])
             [p := (heap m ! p)\<lparr>substates := substates (heap m ! p) @ [(to_key k, length (heap m))]\<rparr>]\<rparr>))"
proof -
  let ?d = "stateDescrFromStateStr stateStr"
  let ?k = "if length ?d = 0 then Undefined else ?d ! (length ?d - 1)"
  show ?thesis
  proof (cases "registerState_loop (heap m) (StateObj worldState) (take (length ?d - 1) ?d)")
    case (Inl e)
    then show ?thesis by (simp add: registerState_def Let_def)
  next
    case (Inr r)
    show ?thesis
    proof (cases r)
      case (ProtoValue k)
      with Inr show ?thesis by (simp add: registerState_def Let_def)
    next
      case (StateObj p)
      from addSubstate_cases [of "heap m" p "new_State ?k ctx"] show ?thesis
      proof
        assume "addSubstate (heap m) p (new_State ?k ctx) = (Throw SubstateAlreadyExists, heap m)"
        with Inr StateObj have "registerState m stateStr ctx = (Throw SubstateAlreadyExists, m)"
          by (simp add: registerState_def Let_def)
        then show ?thesis by blast
      next
        assume "addSubstate (heap m) p (new_State ?k ctx)
          = (Normal, (heap m @ [new_State ?k ctx])
               [p := (heap m ! p)\<lparr>substates := substates (heap m ! p)
                    @ [(to_key (name (new_State ?k ctx)), length (heap m))]\<rparr>])"
        with Inr StateObj have "registerState m stateStr ctx
          = (Normal, m\<lparr>heap := (heap m @ [new_State ?k ctx])
               [p := (heap m ! p)\<lparr>substates := substates (heap m ! p) @ [(to_key ?k, length (heap m))]\<rparr>]\<rparr>)"
          by (simp add: registerState_def Let_def)
        then show ?thesis by blast
      qed
    qed
  qed
qed

section \<open>The walks of changeState\<close>

lemma getSubstate_StateObj:
  "getSubstate h (StateObj a) n =
     (case map_of (substates (h ! a)) (to_key n) of
        Some c \<Rightarrow> Inr (StateObj c)
      | None \<Rightarrow> if to_key n \<in> set Object_prototype_keys then Inr (ProtoValue (to_key n))
                else Inl UnknownSubstate)"
proof (cases "map_of (substates (h ! a)) (to_key n)")
  case None
  then have "to_key n \<notin> fst ` set (substates (h ! a))"
    by (simp add: map_of_eq_None_iff)
  with None show ?thesis
    by (simp add: in_substates_def substates_get_def)
next
  case (Some c)
  then have "to_key n \<in> fst ` set (substates (h ! a))"
    by (metis map_of_eq_None_iff option.distinct(1))
  with Some show ?thesis
    by (simp add: in_substates_def substates_get_def)
qed

lemma nodes_of_length: "nodes_of h a p = Some as \<Longrightarrow> length as = length p"
  by (induction p arbitrary: a as) (auto split: option.splits)

lemma nodes_of_append:
  "nodes_of h a (p @ q) =
     (case nodes_of h a p of
        None \<Rightarrow> None
      | Some as \<Rightarrow> (case nodes_of h (last (a # as)) q of None \<Rightarrow> None | Some bs \<Rightarrow> Some (as @ bs)))"
  by (induction p arbitrary: a) (auto split: option.splits)

lemma nodes_of_take:
  "nodes_of h a p = Some as \<Longrightarrow> nodes_of h a (take k p) = Some (take k as)"
proof -
  assume a: "nodes_of h a p = Some as"
  have "nodes_of h a (take k p @ drop k p) = Some as"
    using a by simp
  then have c: "(case nodes_of h a (take k p) of
        None \<Rightarrow> None
      | Some bs \<Rightarrow> (case nodes_of h (last (a # bs)) (drop k p) of None \<Rightarrow> None | Some cs \<Rightarrow> Some (bs @ cs)))
      = Some as"
    by (simp only: nodes_of_append)
  then obtain bs where b: "nodes_of h a (take k p) = Some bs"
    by (cases "nodes_of h a (take k p)") simp_all
  with c obtain cs where "as = bs @ cs"
    by (cases "nodes_of h (last (a # bs)) (drop k p)") auto
  moreover from b have "length bs = length (take k p)"
    by (rule nodes_of_length)
  moreover from a have "length as = length p"
    by (rule nodes_of_length)
  ultimately have "take k as = bs"
    by (cases "k \<le> length p") (simp_all add: min_def)
  with b show ?thesis by simp
qed

lemma drop_level:
  "drop (changeLevel - i) (c # cs)
     = (if changeLevel \<le> i then c # drop (changeLevel - (i + 1)) cs
        else drop (changeLevel - (i + 1)) cs)"
proof (cases "changeLevel \<le> i")
  case True
  then show ?thesis by simp
next
  case False
  then have "changeLevel - i = Suc (changeLevel - (i + 1))" by arith
  with False show ?thesis by simp
qed

lemma wf_heap_child:
  "wf_heap h \<Longrightarrow> a < length h \<Longrightarrow> map_of (substates (h ! a)) k = Some c \<Longrightarrow>
   a < c \<and> c < length h \<and> k \<notin> set Object_prototype_keys
   \<and> (name (h ! c) = Str k \<or> (a = worldState \<and> name (h ! c) = Undefined \<and> k = ''undefined''))"
  unfolding wf_heap_def by (blast dest: map_of_SomeD)

lemma nodes_of_bounds:
  "wf_heap h \<Longrightarrow> a < length h \<Longrightarrow> nodes_of h a p = Some as \<Longrightarrow> \<forall>c\<in>set as. a < c \<and> c < length h"
proof (induction p arbitrary: a as)
  case Nil
  then show ?case by simp
next
  case (Cons n ns)
  from Cons.prems(3) obtain c cs where c: "map_of (substates (h ! a)) (to_key n) = Some c"
    and cs: "nodes_of h c ns = Some cs" and as: "as = c # cs"
    by (auto split: option.splits)
  from wf_heap_child [OF Cons.prems(1,2) c] have ac: "a < c" "c < length h" by simp_all
  from Cons.IH [OF Cons.prems(1) ac(2) cs] have "\<forall>d\<in>set cs. c < d \<and> d < length h" .
  with ac as show ?case by auto
qed

lemma last_nodes_bound:
  assumes "wf_heap h" "a < length h" "nodes_of h a p = Some as"
  shows "last (a # as) < length h"
proof (cases "as = []")
  case True
  with assms(2) show ?thesis by simp
next
  case False
  then have "last (a # as) \<in> set as" by simp
  with nodes_of_bounds [OF assms] show ?thesis by blast
qed

lemma collectExitStates_nodes:
  "nodes_of h a p = Some as \<Longrightarrow>
   collectExitStates h (StateObj a) p i changeLevel forceAll acc
     = Inr (acc @ map StateObj (if forceAll then as else drop (changeLevel - i) as))"
proof (induction p arbitrary: a as i acc)
  case Nil
  then show ?case by simp
next
  case (Cons n ns)
  from Cons.prems obtain c cs where c: "map_of (substates (h ! a)) (to_key n) = Some c"
    and cs: "nodes_of h c ns = Some cs" and as: "as = c # cs"
    by (auto split: option.splits)
  have g: "getSubstate h (StateObj a) n = Inr (StateObj c)"
    by (subst getSubstate_StateObj) (simp add: c)
  have "collectExitStates h (StateObj a) (n # ns) i changeLevel forceAll acc
      = collectExitStates h (StateObj c) ns (i + 1) changeLevel forceAll
          (if i \<ge> changeLevel \<or> forceAll then acc @ [StateObj c] else acc)"
    by (simp only: collectExitStates.simps g sum.case)
  also have "\<dots> = Inr ((if i \<ge> changeLevel \<or> forceAll then acc @ [StateObj c] else acc)
        @ map StateObj (if forceAll then cs else drop (changeLevel - (i + 1)) cs))"
    by (rule Cons.IH [OF cs])
  also have "\<dots> = Inr (acc @ map StateObj (if forceAll then as else drop (changeLevel - i) as))"
    unfolding as drop_level by simp
  finally show ?case .
qed

lemma callExits_nodes:
  "callExits m (map StateObj as) = (Normal, exited m (rev as))"
proof (induction as arbitrary: m rule: rev_induct)
  case Nil
  then show ?case by (simp add: callExits.simps exited_def)
next
  case (snoc x xs)
  have "callExits m (map StateObj (xs @ [x]))
      = callExits (m\<lparr>calls := calls m @ [exit_event (heap m) x]\<rparr>) (map StateObj xs)"
    by (subst callExits.simps) (simp add: butlast_append)
  also have "\<dots> = (Normal, exited (m\<lparr>calls := calls m @ [exit_event (heap m) x]\<rparr>) (rev xs))"
    by (rule snoc.IH)
  finally show ?case by (simp add: exited_def)
qed

lemma enterStates_step:
  "getSubstate (heap m) state n = Inr (StateObj c) \<Longrightarrow>
   enterStates m state (n # ns) i changeLevel forceAll
     = enterStates (if i \<ge> changeLevel \<or> forceAll then entered m [c] else m)
         (StateObj c) ns (i + 1) changeLevel forceAll"
  by (simp add: entered_def)

lemma entered_entered [simp]: "entered (entered m as) bs = entered m (as @ bs)"
  by (simp add: entered_def)

lemma entered_Nil [simp]: "entered m [] = m"
  by (simp add: entered_def)

lemma heap_entered [simp]: "heap (entered m as) = heap m"
  by (simp add: entered_def)

lemma enterStates_nodes:
  "nodes_of (heap m) a p = Some as \<Longrightarrow>
   enterStates m (StateObj a) p i changeLevel forceAll
     = (Inr (StateObj (last (a # as))),
        entered m (if forceAll then as else drop (changeLevel - i) as))"
proof (induction p arbitrary: a as i m)
  case Nil
  then show ?case by simp
next
  case (Cons n ns)
  from Cons.prems obtain c cs where c: "map_of (substates (heap m ! a)) (to_key n) = Some c"
    and cs: "nodes_of (heap m) c ns = Some cs" and as: "as = c # cs"
    by (auto split: option.splits)
  have g: "getSubstate (heap m) (StateObj a) n = Inr (StateObj c)"
    by (subst getSubstate_StateObj) (simp add: c)
  let ?m' = "if i \<ge> changeLevel \<or> forceAll then entered m [c] else m"
  have cs': "nodes_of (heap ?m') c ns = Some cs"
    using cs by simp
  have "enterStates m (StateObj a) (n # ns) i changeLevel forceAll
      = enterStates ?m' (StateObj c) ns (i + 1) changeLevel forceAll"
    by (rule enterStates_step [OF g])
  also have "\<dots> = (Inr (StateObj (last (c # cs))),
        entered ?m' (if forceAll then cs else drop (changeLevel - (i + 1)) cs))"
    by (rule Cons.IH [OF cs'])
  also have "\<dots> = (Inr (StateObj (last (a # as))),
        entered m (if forceAll then as else drop (changeLevel - i) as))"
    unfolding as drop_level by simp
  finally show ?case .
qed

lemma cascade_none:
  "getDefaultSubstate (heap m) state = Inr None \<Longrightarrow> enterDefaultSubstates m state = Some (Normal, m)"
  by (subst enterDefaultSubstates.simps) simp

lemma cascade_proto:
  "getDefaultSubstate (heap m) state = Inr (Some (ProtoValue k)) \<Longrightarrow>
   enterDefaultSubstates m state = Some (Throw TypeError, m)"
  by (subst enterDefaultSubstates.simps) simp

lemma cascade_error:
  "getDefaultSubstate (heap m) state = Inl e \<Longrightarrow> enterDefaultSubstates m state = Some (Throw e, m)"
  by (subst enterDefaultSubstates.simps) simp

lemma cascade_step:
  "getDefaultSubstate (heap m) state = Inr (Some (StateObj c)) \<Longrightarrow>
   enterDefaultSubstates m state = enterDefaultSubstates (cascaded m [c]) (StateObj c)"
  by (subst enterDefaultSubstates.simps) (simp add: cascaded_def)

lemma cascaded_Nil [simp]: "cascaded m [] = m"
  by (simp add: cascaded_def)

lemma heap_cascaded [simp]: "heap (cascaded m cs) = heap m"
  by (simp add: cascaded_def)

lemma cascaded_cascaded [simp]: "cascaded (cascaded m as) bs = cascaded m (as @ bs)"
  by (simp add: cascaded_def)

lemma default_chain_cascade:
  "default_chain h a cs \<Longrightarrow> heap m = h \<Longrightarrow>
   enterDefaultSubstates m (StateObj a) = Some (Normal, cascaded m cs)"
proof (induction arbitrary: m rule: default_chain.induct)
  case (default_chain_stop h a)
  then show ?case by (simp add: cascade_none)
next
  case (default_chain_step h a c cs)
  from default_chain_step.hyps(1) default_chain_step.prems
  have "enterDefaultSubstates m (StateObj a) = enterDefaultSubstates (cascaded m [c]) (StateObj c)"
    by (simp add: cascade_step)
  also have "\<dots> = Some (Normal, cascaded (cascaded m [c]) cs)"
    by (rule default_chain_step.IH) (simp add: default_chain_step.prems)
  finally show ?case by simp
qed

lemma default_chain_path: "default_chain h a cs \<Longrightarrow> default_path h a cs"
  by (induction rule: default_chain.induct) (auto intro: default_path.intros)

lemma getDefaultSubstate_world:
  "wf_heap h \<Longrightarrow> getDefaultSubstate h (StateObj worldState) = Inr None"
  by (simp add: wf_heap_def)

lemma getDefaultSubstate_StateObj_cases:
  "getDefaultSubstate h (StateObj a) = Inr None
   \<or> (\<exists>k. getDefaultSubstate h (StateObj a) = Inr (Some (ProtoValue k)))
   \<or> (\<exists>c. getDefaultSubstate h (StateObj a) = Inr (Some (StateObj c)))"
  by (auto simp: substates_get_def split: option.splits)

lemma getDefaultSubstate_child:
  assumes wf: "wf_heap h" and a: "a < length h"
    and d: "getDefaultSubstate h (StateObj a) = Inr (Some (StateObj c))"
  shows "a < c \<and> c < length h \<and> (\<exists>k. name (h ! c) = Str k \<and> map_of (substates (h ! a)) k = Some c)"
proof -
  from d obtain n where n: "map_of (substates (h ! a)) n = Some c"
    by (auto simp: substates_get_def split: option.splits if_splits)
  have "a \<noteq> worldState"
    using d getDefaultSubstate_world [OF wf] by auto
  with wf_heap_child [OF wf a n] n show ?thesis by auto
qed

lemma default_path_nodes:
  "default_path h a cs \<Longrightarrow> wf_heap h \<Longrightarrow> a < length h \<Longrightarrow>
   nodes_of h a (map (\<lambda>c. name (h ! c)) cs) = Some cs \<and> Undefined \<notin> set (map (\<lambda>c. name (h ! c)) cs)"
proof (induction rule: default_path.induct)
  case (default_path_Nil h a)
  then show ?case by simp
next
  case (default_path_Cons h a c cs)
  from getDefaultSubstate_child [OF default_path_Cons.prems default_path_Cons.hyps(1)]
  obtain k where c: "a < c" "c < length h" "name (h ! c) = Str k" "map_of (substates (h ! a)) k = Some c"
    by blast
  from default_path_Cons.IH [OF default_path_Cons.prems(1) c(2)] c show ?case
    by simp
qed

lemma cascade_total:
  "wf_heap (heap m) \<Longrightarrow> a < length (heap m) \<Longrightarrow>
   \<exists>cs. default_path (heap m) a cs
     \<and> (default_chain (heap m) a cs
          \<and> enterDefaultSubstates m (StateObj a) = Some (Normal, cascaded m cs)
        \<or> enterDefaultSubstates m (StateObj a) = Some (Throw TypeError, cascaded m cs))"
proof (induction "length (heap m) - a" arbitrary: m a rule: less_induct)
  case less
  from getDefaultSubstate_StateObj_cases [of "heap m" a] show ?case
  proof (elim disjE exE)
    assume n: "getDefaultSubstate (heap m) (StateObj a) = Inr None"
    then have "default_chain (heap m) a []"
      by (rule default_chain_stop)
    moreover have "enterDefaultSubstates m (StateObj a) = Some (Normal, cascaded m [])"
      using n by (simp add: cascade_none)
    ultimately show ?thesis
      using default_path_Nil by blast
  next
    fix k assume "getDefaultSubstate (heap m) (StateObj a) = Inr (Some (ProtoValue k))"
    then have "enterDefaultSubstates m (StateObj a) = Some (Throw TypeError, cascaded m [])"
      by (simp add: cascade_proto)
    then show ?thesis
      using default_path_Nil by blast
  next
    fix c assume d: "getDefaultSubstate (heap m) (StateObj a) = Inr (Some (StateObj c))"
    from getDefaultSubstate_child [OF less.prems d] have c: "a < c" "c < length (heap m)"
      by simp_all
    let ?m = "cascaded m [c]"
    have step: "enterDefaultSubstates m (StateObj a) = enterDefaultSubstates ?m (StateObj c)"
      using d by (rule cascade_step)
    have "length (heap ?m) - c < length (heap m) - a"
      using c by simp
    moreover have "wf_heap (heap ?m)" "c < length (heap ?m)"
      using less.prems c by simp_all
    ultimately obtain cs where p: "default_path (heap ?m) c cs"
      and r: "default_chain (heap ?m) c cs
               \<and> enterDefaultSubstates ?m (StateObj c) = Some (Normal, cascaded ?m cs)
             \<or> enterDefaultSubstates ?m (StateObj c) = Some (Throw TypeError, cascaded ?m cs)"
      using less.hyps [of ?m c] by blast
    from p d have "default_path (heap m) a (c # cs)"
      by (simp add: default_path_Cons)
    moreover from r d step
    have "default_chain (heap m) a (c # cs)
               \<and> enterDefaultSubstates m (StateObj a) = Some (Normal, cascaded m (c # cs))
             \<or> enterDefaultSubstates m (StateObj a) = Some (Throw TypeError, cascaded m (c # cs))"
      by (auto intro: default_chain_step)
    ultimately show ?thesis by blast
  qed
qed

lemma enterStates_proto:
  "getSubstate (heap m) state n = Inr (ProtoValue k) \<Longrightarrow> i \<ge> changeLevel \<or> forceAll \<Longrightarrow>
   enterStates m state (n # ns) i changeLevel forceAll = (Inl TypeError, m)"
  by simp

lemma enterStates_error:
  "getSubstate (heap m) state n = Inl e \<Longrightarrow>
   enterStates m state (n # ns) i changeLevel forceAll = (Inl e, m)"
  by simp

lemma enterStates_fail:
  "nodes_of (heap m) a p = None \<Longrightarrow> nodes_of (heap m) a (take (changeLevel - i) p) \<noteq> None \<Longrightarrow>
   \<exists>j bs. j < length p \<and> nodes_of (heap m) a (take j p) = Some bs
     \<and> map_of (substates (heap m ! last (a # bs))) (to_key (p ! j)) = None
     \<and> enterStates m (StateObj a) p i changeLevel forceAll
         = (Inl (if to_key (p ! j) \<in> set Object_prototype_keys then TypeError else UnknownSubstate),
            entered m (if forceAll then bs else drop (changeLevel - i) bs))"
proof (induction p arbitrary: a i m)
  case Nil
  then show ?case by simp
next
  case (Cons n ns)
  show ?case
  proof (cases "map_of (substates (heap m ! a)) (to_key n)")
    case None
    have le: "changeLevel \<le> i"
    proof (rule ccontr)
      assume "\<not> changeLevel \<le> i"
      then have "changeLevel - i = Suc (changeLevel - (i + 1))" by arith
      with Cons.prems(2) None show False by simp
    qed
    have "enterStates m (StateObj a) (n # ns) i changeLevel forceAll
         = (Inl (if to_key n \<in> set Object_prototype_keys then TypeError else UnknownSubstate), m)"
    proof (cases "to_key n \<in> set Object_prototype_keys")
      case True
      with None have "getSubstate (heap m) (StateObj a) n = Inr (ProtoValue (to_key n))"
        by (subst getSubstate_StateObj) simp
      from enterStates_proto [OF this] le True show ?thesis by simp
    next
      case False
      with None have "getSubstate (heap m) (StateObj a) n = Inl UnknownSubstate"
        by (subst getSubstate_StateObj) simp
      from enterStates_error [OF this] False show ?thesis by simp
    qed
    with None have "0 < length (n # ns) \<and> nodes_of (heap m) a (take 0 (n # ns)) = Some []
     \<and> map_of (substates (heap m ! last (a # []))) (to_key ((n # ns) ! 0)) = None
     \<and> enterStates m (StateObj a) (n # ns) i changeLevel forceAll
         = (Inl (if to_key ((n # ns) ! 0) \<in> set Object_prototype_keys then TypeError else UnknownSubstate),
            entered m (if forceAll then [] else drop (changeLevel - i) []))"
      by simp
    then show ?thesis by blast
  next
    case (Some c)
    let ?m' = "if i \<ge> changeLevel \<or> forceAll then entered m [c] else m"
    have g: "getSubstate (heap m) (StateObj a) n = Inr (StateObj c)"
      by (subst getSubstate_StateObj) (simp add: Some)
    have hm: "heap ?m' = heap m"
      by simp
    from Cons.prems(1) Some have n1: "nodes_of (heap ?m') c ns = None"
      unfolding hm by (auto split: option.splits)
    have n2: "nodes_of (heap ?m') c (take (changeLevel - (i + 1)) ns) \<noteq> None"
    proof (cases "changeLevel \<le> i")
      case True
      then show ?thesis by simp
    next
      case False
      then have "changeLevel - i = Suc (changeLevel - (i + 1))" by arith
      with Cons.prems(2) Some False show ?thesis
        unfolding hm by (auto split: option.splits)
    qed
    from Cons.IH [OF n1 n2] obtain j bs where j: "j < length ns"
      and bs: "nodes_of (heap ?m') c (take j ns) = Some bs"
      and un: "map_of (substates (heap ?m' ! last (c # bs))) (to_key (ns ! j)) = None"
      and r: "enterStates ?m' (StateObj c) ns (i + 1) changeLevel forceAll
         = (Inl (if to_key (ns ! j) \<in> set Object_prototype_keys then TypeError else UnknownSubstate),
            entered ?m' (if forceAll then bs else drop (changeLevel - (i + 1)) bs))"
      by blast
    have e: "entered ?m' (if forceAll then bs else drop (changeLevel - (i + 1)) bs)
        = entered m (if forceAll then c # bs else drop (changeLevel - i) (c # bs))"
      unfolding drop_level by simp
    have "Suc j < length (n # ns)"
      using j by simp
    moreover have "nodes_of (heap m) a (take (Suc j) (n # ns)) = Some (c # bs)"
      using bs Some unfolding hm by simp
    moreover have "map_of (substates (heap m ! last (a # c # bs))) (to_key ((n # ns) ! Suc j)) = None"
      using un unfolding hm by simp
    moreover have "enterStates m (StateObj a) (n # ns) i changeLevel forceAll
         = (Inl (if to_key ((n # ns) ! Suc j) \<in> set Object_prototype_keys then TypeError else UnknownSubstate),
            entered m (if forceAll then c # bs else drop (changeLevel - i) (c # bs)))"
      using enterStates_step [OF g, of ns i changeLevel forceAll] r e by simp
    ultimately show ?thesis by blast
  qed
qed

lemma exited_simps [simp]:
  "heap (exited m as) = heap m" "currentStateDescr (exited m as) = currentStateDescr m"
  "calls (exited m as) = calls m @ map (exit_event (heap m)) as"
  by (simp_all add: exited_def)

lemma entered_simps [simp]:
  "currentStateDescr (entered m as) = currentStateDescr m"
  "calls (entered m as) = calls m @ map (enter_event (heap m)) as"
  by (simp_all add: entered_def)

lemma cascaded_simps [simp]:
  "currentStateDescr (cascaded m cs) = currentStateDescr m @ map (\<lambda>c. name (heap m ! c)) cs"
  "calls (cascaded m cs) = calls m @ map (enter_event (heap m)) cs"
  by (simp_all add: cascaded_def)

text \<open>The exit walk and the exit calls of a transition, when the current description resolves.\<close>

lemma changeState_after_exits:
  assumes old: "nodes_of (heap m) worldState (currentStateDescr m) = Some old"
  shows "changeState m newStateStr forceAll =
     (case enterStates (exited m (rev (if forceAll then old
                 else drop (computeChangeLevel m (stateDescrFromStateStr newStateStr)) old)))
             (StateObj worldState) (stateDescrFromStateStr newStateStr) 0
             (computeChangeLevel m (stateDescrFromStateStr newStateStr)) forceAll of
        (Inl e, m2) \<Rightarrow> Some (Throw e, m2)
      | (Inr state, m2) \<Rightarrow>
          enterDefaultSubstates (m2\<lparr>currentStateDescr := stateDescrFromStateStr newStateStr\<rparr>) state)"
proof -
  let ?k = "computeChangeLevel m (stateDescrFromStateStr newStateStr)"
  have "collectExitStates (heap m) (StateObj worldState) (currentStateDescr m) 0 ?k forceAll []
      = Inr (map StateObj (if forceAll then old else drop ?k old))"
    using collectExitStates_nodes [OF old, of 0 ?k forceAll "[]"] by simp
  then show ?thesis
    by (simp add: changeState_def Let_def callExits_nodes)
qed

lemma take_changeLevel:
  "take (computeChangeLevel m new) new = take (computeChangeLevel m new) (currentStateDescr m)"
proof -
  let ?l = "longest_common_prefix (currentStateDescr m) new"
  have "prefix ?l (currentStateDescr m)" "prefix ?l new"
    by (rule longest_common_prefix_prefix1, rule longest_common_prefix_prefix2)
  then obtain us vs where "currentStateDescr m = ?l @ us" "new = ?l @ vs"
    by (auto simp: prefix_def)
  then have "take (length ?l) (currentStateDescr m) = ?l" "take (length ?l) new = ?l"
    by (metis append_eq_conv_conj)+
  then show ?thesis by (simp add: computeChangeLevel_lcp)
qed

lemma changeLevel_prefix_resolves:
  assumes "nodes_of h a (currentStateDescr m) = Some old"
  shows "nodes_of h a (take (computeChangeLevel m new) new) = Some (take (computeChangeLevel m new) old)"
  unfolding take_changeLevel using assms by (rule nodes_of_take)

lemma transitioned_simps [simp]:
  "heap (transitioned m f new old as) = heap m"
  "currentStateDescr (transitioned m f new old as) = currentStateDescr m"
  "calls (transitioned m f new old as)
     = calls m @ map (exit_event (heap m)) (rev (if f then old else drop (computeChangeLevel m new) old))
         @ map (enter_event (heap m)) (if f then as else drop (computeChangeLevel m new) as)"
  by (simp_all add: transitioned_def)

lemma changeState_resolved:
  assumes wf: "wf_heap (heap m)"
    and old: "nodes_of (heap m) worldState (currentStateDescr m) = Some old"
    and as: "nodes_of (heap m) worldState (stateDescrFromStateStr newStateStr) = Some as"
  shows "\<exists>cs. default_path (heap m) (last (worldState # as)) cs
     \<and> (default_chain (heap m) (last (worldState # as)) cs
          \<and> changeState m newStateStr forceAll
              = Some (Normal, cascaded ((transitioned m forceAll (stateDescrFromStateStr newStateStr) old as)
                          \<lparr>currentStateDescr := stateDescrFromStateStr newStateStr\<rparr>) cs)
        \<or> changeState m newStateStr forceAll
              = Some (Throw TypeError, cascaded ((transitioned m forceAll (stateDescrFromStateStr newStateStr) old as)
                          \<lparr>currentStateDescr := stateDescrFromStateStr newStateStr\<rparr>) cs))"
proof -
  let ?new = "stateDescrFromStateStr newStateStr"
  let ?k = "computeChangeLevel m ?new"
  let ?m1 = "exited m (rev (if forceAll then old else drop ?k old))"
  let ?m2 = "(transitioned m forceAll ?new old as)\<lparr>currentStateDescr := ?new\<rparr>"
  have w: "0 < length (heap m)"
    using wf by (simp add: wf_heap_def)
  have "nodes_of (heap ?m1) worldState ?new = Some as"
    using as by simp
  from enterStates_nodes [OF this, of 0 ?k forceAll]
  have "enterStates ?m1 (StateObj worldState) ?new 0 ?k forceAll
      = (Inr (StateObj (last (worldState # as))), transitioned m forceAll ?new old as)"
    by (simp add: transitioned_def)
  then have c: "changeState m newStateStr forceAll
      = enterDefaultSubstates ?m2 (StateObj (last (worldState # as)))"
    by (simp add: changeState_after_exits [OF old])
  have "last (worldState # as) < length (heap m)"
    using wf w as by (intro last_nodes_bound [of _ _ ?new]) (simp_all add: worldState_def)
  then have "wf_heap (heap ?m2)" "last (worldState # as) < length (heap ?m2)"
    using wf by simp_all
  from cascade_total [OF this] show ?thesis
    unfolding c by simp
qed

lemma changeState_unresolved:
  assumes old: "nodes_of (heap m) worldState (currentStateDescr m) = Some old"
    and new: "nodes_of (heap m) worldState (stateDescrFromStateStr newStateStr) = None"
  shows "\<exists>j bs. j < length (stateDescrFromStateStr newStateStr)
     \<and> nodes_of (heap m) worldState (take j (stateDescrFromStateStr newStateStr)) = Some bs
     \<and> map_of (substates (heap m ! last (worldState # bs)))
          (to_key (stateDescrFromStateStr newStateStr ! j)) = None
     \<and> changeState m newStateStr forceAll
         = Some (Throw (if to_key (stateDescrFromStateStr newStateStr ! j) \<in> set Object_prototype_keys
                        then TypeError else UnknownSubstate),
                 transitioned m forceAll (stateDescrFromStateStr newStateStr) old bs)"
proof -
  let ?new = "stateDescrFromStateStr newStateStr"
  let ?k = "computeChangeLevel m ?new"
  let ?m1 = "exited m (rev (if forceAll then old else drop ?k old))"
  have n1: "nodes_of (heap ?m1) worldState ?new = None"
    using new by simp
  have n2: "nodes_of (heap ?m1) worldState (take (?k - 0) ?new) \<noteq> None"
    using changeLevel_prefix_resolves [OF old, of ?new] by simp
  from enterStates_fail [OF n1 n2, of forceAll] obtain j bs where j: "j < length ?new"
    and bs: "nodes_of (heap ?m1) worldState (take j ?new) = Some bs"
    and un: "map_of (substates (heap ?m1 ! last (worldState # bs))) (to_key (?new ! j)) = None"
    and r: "enterStates ?m1 (StateObj worldState) ?new 0 ?k forceAll
         = (Inl (if to_key (?new ! j) \<in> set Object_prototype_keys then TypeError else UnknownSubstate),
            entered ?m1 (if forceAll then bs else drop (?k - 0) bs))"
    by blast
  have "changeState m newStateStr forceAll
         = Some (Throw (if to_key (?new ! j) \<in> set Object_prototype_keys then TypeError else UnknownSubstate),
                 transitioned m forceAll ?new old bs)"
    by (simp add: changeState_after_exits [OF old] r transitioned_def)
  with j bs un show ?thesis
    by (intro exI [of _ j] exI [of _ bs]) simp
qed

section \<open>The invariant of reachable managers\<close>

lemma stateDescrFromStateStr_Str:
  "n \<in> set (stateDescrFromStateStr s) \<Longrightarrow> \<exists>k. n = Str k"
  by (auto simp: stateDescrFromStateStr_def split: if_splits)

lemma stateDescrFromStateStr_defined: "Undefined \<notin> set (stateDescrFromStateStr s)"
  using stateDescrFromStateStr_Str [of Undefined s] by auto

lemma invariant_new: "invariant new_StateManager"
  by (simp add: invariant_def new_StateManager_def wf_heap_def new_State_def worldState_def)

lemma changeState_invariant:
  assumes inv: "invariant m" and c: "changeState m newStateStr forceAll = Some (c, m')"
  shows "invariant m' \<and> heap m' = heap m"
proof -
  let ?new = "stateDescrFromStateStr newStateStr"
  from inv have wf: "wf_heap (heap m)" and u: "Undefined \<notin> set (currentStateDescr m)"
    by (simp_all add: invariant_def)
  from inv obtain old where old: "nodes_of (heap m) worldState (currentStateDescr m) = Some old"
    by (auto simp: invariant_def)
  have w: "worldState < length (heap m)"
    using wf by (simp add: wf_heap_def worldState_def)
  show ?thesis
  proof (cases "nodes_of (heap m) worldState ?new")
    case None
    from changeState_unresolved [OF old None, of forceAll] c obtain bs
      where "m' = transitioned m forceAll ?new old bs"
      by auto
    with wf old u show ?thesis
      by (simp add: invariant_def)
  next
    case (Some as)
    from changeState_resolved [OF wf old Some, of forceAll] c obtain cs
      where p: "default_path (heap m) (last (worldState # as)) cs"
        and m': "m' = cascaded ((transitioned m forceAll ?new old as)\<lparr>currentStateDescr := ?new\<rparr>) cs"
      by auto
    have l: "last (worldState # as) < length (heap m)"
      using wf w Some by (rule last_nodes_bound)
    from default_path_nodes [OF p wf l]
    have "nodes_of (heap m) worldState (?new @ map (\<lambda>c. name (heap m ! c)) cs) = Some (as @ cs)"
      and "Undefined \<notin> set (map (\<lambda>c. name (heap m ! c)) cs)"
      by (simp_all add: nodes_of_append Some)
    with wf m' stateDescrFromStateStr_defined [of newStateStr] show ?thesis
      by (simp add: invariant_def)
  qed
qed

lemma registerState_loop_ProtoValue:
  "registerState_loop h (ProtoValue k) p = (if p = [] then Inr (ProtoValue k) else Inl TypeError)"
  by (cases p) simp_all

lemma registerState_loop_bound:
  "wf_heap h \<Longrightarrow> a < length h \<Longrightarrow> registerState_loop h (StateObj a) p = Inr (StateObj b) \<Longrightarrow>
   b < length h"
proof (induction p arbitrary: a)
  case Nil
  then show ?case by simp
next
  case (Cons n ns)
  show ?case
  proof (cases "map_of (substates (h ! a)) (to_key n)")
    case None
    then have "getSubstate h (StateObj a) n = Inl UnknownSubstate
        \<or> getSubstate h (StateObj a) n = Inr (ProtoValue (to_key n))"
      by (subst (1 2) getSubstate_StateObj) simp
    with Cons.prems(3) show ?thesis
      by (auto simp: registerState_loop_ProtoValue split: if_splits)
  next
    case (Some c)
    then have "getSubstate h (StateObj a) n = Inr (StateObj c)"
      by (subst getSubstate_StateObj) simp
    with Cons.prems(3) have "registerState_loop h (StateObj c) ns = Inr (StateObj b)"
      by simp
    moreover from wf_heap_child [OF Cons.prems(1,2) Some] have "c < length h"
      by simp
    ultimately show ?thesis
      using Cons.IH Cons.prems(1) by blast
  qed
qed

lemma addSubstate_attach:
  "addSubstate h p st =
     (if in_substates (h ! p) (to_key (name st)) then (Throw SubstateAlreadyExists, h)
      else (Normal, attach h p st))"
  by (simp add: addSubstate_def attach_def Let_def)

lemma length_attach [simp]: "length (attach h p st) = Suc (length h)"
  by (simp add: attach_def)

lemma attach_nth:
  "p < length h \<Longrightarrow> a \<le> length h \<Longrightarrow>
   attach h p st ! a =
     (if a = p then (h ! p)\<lparr>substates := substates (h ! p) @ [(to_key (name st), length h)]\<rparr>
      else if a = length h then st else h ! a)"
  by (auto simp: attach_def nth_list_update nth_append)

lemma attach_substates:
  "p < length h \<Longrightarrow> a \<le> length h \<Longrightarrow>
   substates (attach h p st ! a) =
     (if a = p then substates (h ! p) @ [(to_key (name st), length h)]
      else if a = length h then substates st else substates (h ! a))"
  by (simp add: attach_nth)

lemma attach_name:
  "p < length h \<Longrightarrow> a \<le> length h \<Longrightarrow>
   name (attach h p st ! a) = (if a = length h then name st else name (h ! a))"
  by (simp add: attach_nth)

lemma attach_context:
  "p < length h \<Longrightarrow> a < length h \<Longrightarrow> context_obj (attach h p st ! a) = context_obj (h ! a)"
  by (simp add: attach_nth)

lemma attach_entry:
  assumes "p < length h" "a \<le> length h" "substates st = []"
    and "(k, c) \<in> set (substates (attach h p st ! a))"
  shows "a < length h \<and> (k, c) \<in> set (substates (h ! a))
         \<or> a = p \<and> k = to_key (name st) \<and> c = length h"
  using assms by (auto simp: attach_substates split: if_splits)

lemma wf_heap_attach:
  assumes wf: "wf_heap h" and p: "p < length h"
    and fresh: "\<not> in_substates (h ! p) (to_key (name st))"
    and nm: "name st \<noteq> Undefined \<or> p = worldState"
    and sub: "substates st = []"
  shows "wf_heap (attach h p st)"
proof -
  let ?h = "attach h p st"
  let ?k = "to_key (name st)"
  have old: "\<And>a k c. a < length h \<Longrightarrow> (k, c) \<in> set (substates (h ! a)) \<Longrightarrow>
      a < c \<and> c < length h \<and> k \<notin> set Object_prototype_keys
           \<and> (name (h ! c) = Str k
                \<or> (a = worldState \<and> name (h ! c) = Undefined \<and> k = ''undefined''))"
    using wf unfolding wf_heap_def by blast
  have uniq: "\<And>a b ka kb c. a < length h \<Longrightarrow> b < length h \<Longrightarrow>
      (ka, c) \<in> set (substates (h ! a)) \<Longrightarrow> (kb, c) \<in> set (substates (h ! b)) \<Longrightarrow> a = b \<and> ka = kb"
    using wf unfolding wf_heap_def by blast
  have dist: "\<And>a. a < length h \<Longrightarrow> distinct (map fst (substates (h ! a)))"
    using wf unfolding wf_heap_def by blast
  have w: "worldState < length h" "context_obj (h ! worldState) = None"
    using wf unfolding wf_heap_def worldState_def by auto
  have newname: "name st = Str ?k \<or> (p = worldState \<and> name st = Undefined \<and> ?k = ''undefined'')"
    using nm by (cases "name st") auto
  have c1: "?h \<noteq> []"
    by (simp add: attach_def)
  have c2: "context_obj (?h ! worldState) = None"
    using w p by (simp add: attach_context)
  have c3: "a < c \<and> c < length ?h \<and> k \<notin> set Object_prototype_keys
           \<and> (name (?h ! c) = Str k
                \<or> (a = worldState \<and> name (?h ! c) = Undefined \<and> k = ''undefined''))"
    if a: "a < length ?h" and e: "(k, c) \<in> set (substates (?h ! a))" for a k c
  proof -
    from a have a': "a \<le> length h" by simp
    from attach_entry [OF p a' sub e] show ?thesis
    proof
      assume o: "a < length h \<and> (k, c) \<in> set (substates (h ! a))"
      with old [of a k c] have "c < length h" by simp
      with old [of a k c] o p show ?thesis
        by (simp add: attach_name)
    next
      assume n: "a = p \<and> k = ?k \<and> c = length h"
      with fresh have "k \<notin> set Object_prototype_keys"
        by (simp add: in_substates_def)
      with n p newname show ?thesis
        by (simp add: attach_name)
    qed
  qed
  have c4: "distinct (map fst (substates (?h ! a)))" if a: "a < length ?h" for a
  proof -
    from a have a': "a \<le> length h" by simp
    show ?thesis
    proof (cases "a = p")
      case True
      with fresh dist [OF p] p show ?thesis
        by (simp add: attach_substates in_substates_def)
    next
      case False
      with a' dist [of a] p sub show ?thesis
        by (simp add: attach_substates)
    qed
  qed
  have c5: "a = b \<and> ka = kb"
    if a: "a < length ?h" and b: "b < length ?h"
      and ea: "(ka, c) \<in> set (substates (?h ! a))" and eb: "(kb, c) \<in> set (substates (?h ! b))"
    for a b ka kb c
  proof -
    from a b have a': "a \<le> length h" and b': "b \<le> length h" by simp_all
    from attach_entry [OF p a' sub ea] attach_entry [OF p b' sub eb] show ?thesis
    proof (elim disjE)
      assume "a < length h \<and> (ka, c) \<in> set (substates (h ! a))"
        "b < length h \<and> (kb, c) \<in> set (substates (h ! b))"
      then show ?thesis using uniq by blast
    next
      assume "a < length h \<and> (ka, c) \<in> set (substates (h ! a))"
        "b = p \<and> kb = ?k \<and> c = length h"
      with old [of a ka c] show ?thesis by simp
    next
      assume "a = p \<and> ka = ?k \<and> c = length h"
        "b < length h \<and> (kb, c) \<in> set (substates (h ! b))"
      with old [of b kb c] show ?thesis by simp
    next
      assume "a = p \<and> ka = ?k \<and> c = length h" "b = p \<and> kb = ?k \<and> c = length h"
      then show ?thesis by simp
    qed
  qed
  show ?thesis
    unfolding wf_heap_def using c1 c2 c3 c4 c5 by blast
qed

lemma map_of_attach:
  assumes "wf_heap h" "p < length h" "a < length h" "map_of (substates (h ! a)) k = Some c"
  shows "map_of (substates (attach h p st ! a)) k = Some c"
  using assms by (auto simp: attach_substates map_add_Some_iff)

lemma nodes_of_attach:
  "wf_heap h \<Longrightarrow> p < length h \<Longrightarrow> a < length h \<Longrightarrow> nodes_of h a path = Some as \<Longrightarrow>
   nodes_of (attach h p st) a path = Some as"
proof (induction path arbitrary: a as)
  case Nil
  then show ?case by simp
next
  case (Cons n ns)
  from Cons.prems(4) obtain c cs where c: "map_of (substates (h ! a)) (to_key n) = Some c"
    and cs: "nodes_of h c ns = Some cs" and as: "as = c # cs"
    by (auto split: option.splits)
  from wf_heap_child [OF Cons.prems(1,3) c] have "c < length h" by simp
  from Cons.IH [OF Cons.prems(1,2) this cs] map_of_attach [OF Cons.prems(1,2,3) c, of st] as
  show ?case by simp
qed

lemma registerState_result:
  "registerState m stateStr ctx =
     (case registerState_loop (heap m) (StateObj worldState)
             (take (length (stateDescrFromStateStr stateStr) - 1) (stateDescrFromStateStr stateStr)) of
        Inl e \<Rightarrow> (Throw e, m)
      | Inr (ProtoValue k) \<Rightarrow> (Throw TypeError, m)
      | Inr (StateObj p) \<Rightarrow>
          if in_substates (heap m ! p)
               (to_key (if length (stateDescrFromStateStr stateStr) = 0 then Undefined
                        else stateDescrFromStateStr stateStr ! (length (stateDescrFromStateStr stateStr) - 1)))
          then (Throw SubstateAlreadyExists, m)
          else (Normal,
                m\<lparr>heap := attach (heap m) p
                  (new_State (if length (stateDescrFromStateStr stateStr) = 0 then Undefined
                        else stateDescrFromStateStr stateStr ! (length (stateDescrFromStateStr stateStr) - 1))
                     ctx)\<rparr>))"
  by (simp add: registerState_def Let_def addSubstate_attach split: sum.splits objref.splits)

lemma substates_new_State [simp]: "substates (new_State n c) = []"
  by (simp add: new_State_def)

lemma registerState_invariant:
  assumes inv: "invariant m" and r: "registerState m stateStr ctx = (c, m')"
  shows "invariant m'"
proof -
  let ?d = "stateDescrFromStateStr stateStr"
  let ?n = "if length ?d = 0 then Undefined else ?d ! (length ?d - 1)"
  from inv have wf: "wf_heap (heap m)" and u: "Undefined \<notin> set (currentStateDescr m)"
    by (simp_all add: invariant_def)
  from inv obtain old where old: "nodes_of (heap m) worldState (currentStateDescr m) = Some old"
    by (auto simp: invariant_def)
  have w: "worldState < length (heap m)"
    using wf by (simp add: wf_heap_def worldState_def)
  show ?thesis
  proof (cases "registerState_loop (heap m) (StateObj worldState) (take (length ?d - 1) ?d)")
    case (Inl e)
    with r inv show ?thesis by (simp add: registerState_result)
  next
    case (Inr s)
    show ?thesis
    proof (cases s)
      case (ProtoValue k)
      with Inr r inv show ?thesis by (simp add: registerState_result)
    next
      case (StateObj p)
      show ?thesis
      proof (cases "in_substates (heap m ! p) (to_key ?n)")
        case True
        with Inr StateObj r inv show ?thesis by (simp add: registerState_result)
      next
        case False
        with Inr StateObj r have m': "m' = m\<lparr>heap := attach (heap m) p (new_State ?n ctx)\<rparr>"
          by (simp add: registerState_result)
        from Inr StateObj have p: "p < length (heap m)"
          using registerState_loop_bound [OF wf w] by simp
        have nm: "name (new_State ?n ctx) \<noteq> Undefined \<or> p = worldState"
        proof (cases "length ?d = 0")
          case True
          with Inr StateObj show ?thesis by simp
        next
          case False
          then have "?d ! (length ?d - 1) \<in> set ?d" by simp
          from stateDescrFromStateStr_Str [OF this] False show ?thesis by auto
        qed
        have f: "\<not> in_substates (heap m ! p) (to_key (name (new_State ?n ctx)))"
          using False by simp
        have "wf_heap (attach (heap m) p (new_State ?n ctx))"
          using wf p f nm by (rule wf_heap_attach) simp
        moreover have "nodes_of (attach (heap m) p (new_State ?n ctx)) worldState (currentStateDescr m) = Some old"
          using wf p w old by (rule nodes_of_attach)
        ultimately show ?thesis
          using u by (simp add: invariant_def m')
      qed
    qed
  qed
qed

lemma reachable_invariant: "reachable m \<Longrightarrow> invariant m"
proof (induction rule: reachable.induct)
  case reachable_new
  show ?case by (rule invariant_new)
next
  case (reachable_registerState m stateStr ctx c m')
  then show ?case by (blast intro: registerState_invariant)
next
  case (reachable_changeState m newStateStr forceAll c m')
  then show ?case by (blast dest: changeState_invariant)
qed

lemma nodes_of_walk:
  "nodes_of h a p = Some as \<Longrightarrow> registerState_loop h (StateObj a) p = Inr (StateObj (last (a # as)))"
proof (induction p arbitrary: a as)
  case Nil
  then show ?case by simp
next
  case (Cons n ns)
  from Cons.prems obtain c cs where c: "map_of (substates (h ! a)) (to_key n) = Some c"
    and cs: "nodes_of h c ns = Some cs" and as: "as = c # cs"
    by (auto split: option.splits)
  have g: "getSubstate h (StateObj a) n = Inr (StateObj c)"
    by (subst getSubstate_StateObj) (simp add: c)
  have "registerState_loop h (StateObj a) (n # ns) = registerState_loop h (StateObj c) ns"
    by (simp only: registerState_loop.simps g sum.case)
  with Cons.IH [OF cs] as show ?case by simp
qed

section \<open>Reachability of the example managers\<close>

lemma reachable_registerState_snd: "reachable m \<Longrightarrow> reachable (snd (registerState m stateStr ctx))"
  by (metis reachable_registerState prod.collapse)

lemma reachable_register_all: "reachable m \<Longrightarrow> reachable (register_all m paths)"
  unfolding register_all_def
  by (induction paths arbitrary: m) (simp_all add: reachable_registerState_snd)

lemma reachable_transition: "reachable m \<Longrightarrow> reachable (transition m p forceAll)"
proof (cases "changeState m p forceAll")
  case None
  assume "reachable m"
  with None show ?thesis by (simp add: transition_def)
next
  case (Some r)
  assume "reachable m"
  with Some show ?thesis
    by (cases r) (auto simp: transition_def intro: reachable_changeState)
qed

lemma reachable_example_tree: "reachable example_tree"
  unfolding example_tree_def by (intro reachable_register_all reachable_new)

lemma reachable_default_tree: "reachable default_tree"
  unfolding default_tree_def by (intro reachable_registerState_snd reachable_new)

section \<open>Further facts about the cascade and registration\<close>

lemma default_path_length:
  "default_path h a cs \<Longrightarrow> wf_heap h \<Longrightarrow> a < length h \<Longrightarrow> length cs < length h - a"
proof (induction rule: default_path.induct)
  case (default_path_Nil h a)
  then show ?case by simp
next
  case (default_path_Cons h a c cs)
  from getDefaultSubstate_child [OF default_path_Cons.prems default_path_Cons.hyps(1)]
  have c: "a < c" "c < length h" by simp_all
  from default_path_Cons.IH [OF default_path_Cons.prems(1) c(2)] c show ?case by simp
qed

lemma registerState_heap_cases:
  assumes inv: "invariant m"
  shows "snd (registerState m stateStr ctx) = m
     \<or> (\<exists>p st. p < length (heap m)
           \<and> snd (registerState m stateStr ctx) = m\<lparr>heap := attach (heap m) p st\<rparr>)"
proof -
  let ?d = "stateDescrFromStateStr stateStr"
  from inv have wf: "wf_heap (heap m)"
    by (simp add: invariant_def)
  have w: "worldState < length (heap m)"
    using wf by (simp add: wf_heap_def worldState_def)
  show ?thesis
  proof (cases "registerState_loop (heap m) (StateObj worldState) (take (length ?d - 1) ?d)")
    case (Inl e)
    then show ?thesis by (simp add: registerState_result)
  next
    case (Inr s)
    show ?thesis
    proof (cases s)
      case (ProtoValue k)
      with Inr show ?thesis by (simp add: registerState_result)
    next
      case (StateObj p)
      with Inr have "p < length (heap m)"
        using registerState_loop_bound [OF wf w] by simp
      with Inr StateObj show ?thesis
        by (auto simp: registerState_result)
    qed
  qed
qed

lemma registerState_nodes:
  assumes inv: "invariant m" and as: "nodes_of (heap m) worldState p = Some as"
  shows "nodes_of (heap (snd (registerState m stateStr ctx))) worldState p = Some as"
proof -
  from inv have wf: "wf_heap (heap m)"
    by (simp add: invariant_def)
  have w: "worldState < length (heap m)"
    using wf by (simp add: wf_heap_def worldState_def)
  from registerState_heap_cases [OF inv, of stateStr ctx] show ?thesis
  proof (elim disjE exE conjE)
    assume "snd (registerState m stateStr ctx) = m"
    with as show ?thesis by simp
  next
    fix q st
    assume q: "q < length (heap m)"
      and "snd (registerState m stateStr ctx) = m\<lparr>heap := attach (heap m) q st\<rparr>"
    then show ?thesis
      using nodes_of_attach [OF wf q w as, of st] by simp
  qed
qed

section \<open>Strings of state descriptions, and calls that returned\<close>

lemma js_split_not_Nil: "js_split sep s \<noteq> []"
  by (induction s) (auto split: list.splits)

lemma js_join_Cons:
  "ys \<noteq> [] \<Longrightarrow> js_join sep (Str x # ys) = x @ sep @ js_join sep ys"
  by (cases ys) simp_all

lemma js_join_split: "js_join [sep] (map Str (js_split sep s)) = s"
proof (induction s)
  case Nil
  then show ?case by simp
next
  case (Cons c cs)
  obtain w ws where w: "js_split sep cs = w # ws"
    using js_split_not_Nil [of sep cs] by (cases "js_split sep cs") auto
  show ?case
  proof (cases "c = sep")
    case True
    with Cons w show ?thesis by simp
  next
    case False
    with Cons w show ?thesis by (cases ws) auto
  qed
qed

lemma currentState_stateDescr: "js_join ''.'' (stateDescrFromStateStr p) = p"
  using js_join_split [of "CHR ''.''" p] by (simp add: stateDescrFromStateStr_def)

lemma js_join_snoc:
  "xs \<noteq> [] \<Longrightarrow> js_join sep (xs @ [Str k]) = js_join sep xs @ sep @ k"
proof (induction sep xs rule: js_join.induct)
  case (1 sep)
  then show ?case by simp
next
  case (2 sep x)
  then show ?case by (cases x) simp_all
next
  case (3 sep x y ys)
  then show ?case by simp
qed

lemma js_join_append_Str:
  "xs \<noteq> [] \<Longrightarrow> js_join sep (xs @ map Str ks) = js_join sep xs @ concat (map (\<lambda>k. sep @ k) ks)"
proof (induction ks rule: rev_induct)
  case Nil
  then show ?case by simp
next
  case (snoc k ks)
  have "js_join sep (xs @ map Str (ks @ [k])) = js_join sep ((xs @ map Str ks) @ [Str k])"
    by simp
  also have "\<dots> = js_join sep (xs @ map Str ks) @ sep @ k"
    using snoc.prems by (intro js_join_snoc) simp
  finally show ?case
    using snoc by simp
qed

lemma defined_names: "Undefined \<notin> set ns \<Longrightarrow> \<exists>ks. ns = map Str ks"
proof (induction ns)
  case Nil
  then show ?case by simp
next
  case (Cons n ns)
  then obtain ks where "ns = map Str ks" by auto
  moreover from Cons.prems obtain k where "n = Str k" by (cases n) auto
  ultimately have "n # ns = map Str (k # ks)" by simp
  then show ?case by (rule exI)
qed

lemma default_chain_world: "wf_heap h \<Longrightarrow> default_chain h worldState cs \<Longrightarrow> cs = []"
  using getDefaultSubstate_world [of h] by (auto elim: default_chain.cases)

lemma changeLevel_same: "currentStateDescr m = new \<Longrightarrow> computeChangeLevel m new = length new"
proof -
  assume "currentStateDescr m = new"
  moreover have "longest_common_prefix xs xs = xs" for xs :: "jsname list"
    by (induction xs) simp_all
  ultimately show ?thesis by (simp add: computeChangeLevel_lcp)
qed

text \<open>A call that returned: the target resolves and the cascade reached a state without default.\<close>

lemma changeState_Normal:
  assumes inv: "invariant m" and c: "changeState m newStateStr forceAll = Some (Normal, m')"
  shows "\<exists>old as cs. nodes_of (heap m) worldState (currentStateDescr m) = Some old
     \<and> nodes_of (heap m) worldState (stateDescrFromStateStr newStateStr) = Some as
     \<and> default_chain (heap m) (last (worldState # as)) cs
     \<and> nodes_of (heap m) worldState (currentStateDescr m') = Some (as @ cs)
     \<and> Undefined \<notin> set (map (\<lambda>c. name (heap m ! c)) cs)
     \<and> m' = cascaded ((transitioned m forceAll (stateDescrFromStateStr newStateStr) old as)
                          \<lparr>currentStateDescr := stateDescrFromStateStr newStateStr\<rparr>) cs"
proof -
  let ?new = "stateDescrFromStateStr newStateStr"
  from inv have wf: "wf_heap (heap m)"
    by (simp add: invariant_def)
  from inv obtain old where old: "nodes_of (heap m) worldState (currentStateDescr m) = Some old"
    by (auto simp: invariant_def)
  have w: "worldState < length (heap m)"
    using wf by (simp add: wf_heap_def worldState_def)
  show ?thesis
  proof (cases "nodes_of (heap m) worldState ?new")
    case None
    from changeState_unresolved [OF old None, of forceAll] c show ?thesis
      by auto
  next
    case (Some as)
    from changeState_resolved [OF wf old Some, of forceAll] c obtain cs
      where ch: "default_chain (heap m) (last (worldState # as)) cs"
        and m': "m' = cascaded ((transitioned m forceAll ?new old as)\<lparr>currentStateDescr := ?new\<rparr>) cs"
      by auto
    have l: "last (worldState # as) < length (heap m)"
      using wf w Some by (rule last_nodes_bound)
    from default_path_nodes [OF default_chain_path [OF ch] wf l]
    have n: "nodes_of (heap m) worldState (?new @ map (\<lambda>c. name (heap m ! c)) cs) = Some (as @ cs)"
      and u: "Undefined \<notin> set (map (\<lambda>c. name (heap m ! c)) cs)"
      by (simp_all add: nodes_of_append Some)
    from n have "nodes_of (heap m) worldState (currentStateDescr m') = Some (as @ cs)"
      by (simp add: m')
    with old Some ch u m' show ?thesis
      by blast
  qed
qed

section \<open>One path to every state\<close>

lemma nodes_of_nth:
  "nodes_of h a p = Some as \<Longrightarrow> i < length as \<Longrightarrow>
   map_of (substates (h ! ((a # as) ! i))) (to_key (p ! i)) = Some (as ! i)"
proof (induction p arbitrary: a as i)
  case Nil
  then show ?case by simp
next
  case (Cons n ns)
  from Cons.prems(1) obtain c cs where c: "map_of (substates (h ! a)) (to_key n) = Some c"
    and cs: "nodes_of h c ns = Some cs" and as: "as = c # cs"
    by (auto split: option.splits)
  show ?case
  proof (cases i)
    case 0
    with c as show ?thesis by simp
  next
    case (Suc i')
    with Cons.prems(2) as have "i' < length cs" by simp
    from Cons.IH [OF cs this] Suc as show ?thesis by simp
  qed
qed

lemma wf_heap_unique_parent:
  "wf_heap h \<Longrightarrow> a < length h \<Longrightarrow> b < length h \<Longrightarrow>
   map_of (substates (h ! a)) ka = Some c \<Longrightarrow> map_of (substates (h ! b)) kb = Some c \<Longrightarrow>
   a = b \<and> ka = kb"
  unfolding wf_heap_def by (blast dest: map_of_SomeD)

lemma parent_bound:
  assumes "wf_heap h" "nodes_of h worldState p = Some as" "i < length as"
  shows "(worldState # as) ! i < length h"
proof -
  have w: "worldState < length h"
    using assms(1) by (simp add: wf_heap_def worldState_def)
  show ?thesis
  proof (cases i)
    case 0
    with w show ?thesis by simp
  next
    case (Suc i')
    with assms(3) have "as ! i' \<in> set as" by simp
    with nodes_of_bounds [OF assms(1) w assms(2)] Suc show ?thesis by simp
  qed
qed

lemma nodes_of_injective:
  assumes wf: "wf_heap h"
    and as: "nodes_of h worldState p = Some as" and bs: "nodes_of h worldState q = Some bs"
  shows "i < length as \<Longrightarrow> j < length bs \<Longrightarrow> as ! i = bs ! j \<Longrightarrow>
         i = j \<and> (\<forall>l\<le>i. to_key (p ! l) = to_key (q ! l))"
proof (induction i arbitrary: j)
  case 0
  have w: "worldState < length h"
    using wf by (simp add: wf_heap_def worldState_def)
  from nodes_of_nth [OF as "0.prems"(1)] nodes_of_nth [OF bs "0.prems"(2)] "0.prems"(3)
  have "map_of (substates (h ! worldState)) (to_key (p ! 0)) = Some (bs ! j)"
    and "map_of (substates (h ! ((worldState # bs) ! j))) (to_key (q ! j)) = Some (bs ! j)"
    by simp_all
  from wf_heap_unique_parent [OF wf w parent_bound [OF wf bs "0.prems"(2)] this]
  have e: "worldState = (worldState # bs) ! j" and k: "to_key (p ! 0) = to_key (q ! j)"
    by simp_all
  have "j = 0"
  proof (cases j)
    case 0
    then show ?thesis .
  next
    case (Suc j')
    with "0.prems"(2) have "bs ! j' \<in> set bs" by simp
    with nodes_of_bounds [OF wf w bs] have "worldState < bs ! j'" by blast
    with e Suc show ?thesis by simp
  qed
  with k show ?case by simp
next
  case (Suc i)
  have w: "worldState < length h"
    using wf by (simp add: wf_heap_def worldState_def)
  from Suc.prems(1) have i: "i < length as" by simp
  from nodes_of_nth [OF as Suc.prems(1)] nodes_of_nth [OF bs Suc.prems(2)] Suc.prems(3)
  have "map_of (substates (h ! ((worldState # as) ! Suc i))) (to_key (p ! Suc i)) = Some (bs ! j)"
    and "map_of (substates (h ! ((worldState # bs) ! j))) (to_key (q ! j)) = Some (bs ! j)"
    by simp_all
  from wf_heap_unique_parent [OF wf parent_bound [OF wf as Suc.prems(1)]
      parent_bound [OF wf bs Suc.prems(2)] this]
  have e: "as ! i = (worldState # bs) ! j" and k: "to_key (p ! Suc i) = to_key (q ! j)"
    by simp_all
  from i have "as ! i \<in> set as" by simp
  with nodes_of_bounds [OF wf w as] have pos: "worldState < as ! i" by blast
  obtain j' where j: "j = Suc j'"
    using e pos by (cases j) auto
  with Suc.prems(2) have j': "j' < length bs" by simp
  from e j have "as ! i = bs ! j'" by simp
  from Suc.IH [OF i j' this] have "i = j'" and "\<forall>l\<le>i. to_key (p ! l) = to_key (q ! l)"
    by simp_all
  with j k show ?case
    by (auto simp: le_Suc_eq)
qed

lemma to_key_inject: "a \<noteq> Undefined \<Longrightarrow> b \<noteq> Undefined \<Longrightarrow> to_key a = to_key b \<Longrightarrow> a = b"
  by (cases a; cases b) simp_all

lemma changeLevel_differs:
  assumes "computeChangeLevel m new < length (currentStateDescr m)" "computeChangeLevel m new < length new"
  shows "currentStateDescr m ! computeChangeLevel m new \<noteq> new ! computeChangeLevel m new"
proof
  let ?k = "computeChangeLevel m new"
  assume e: "currentStateDescr m ! ?k = new ! ?k"
  have "\<forall>i<Suc ?k. currentStateDescr m ! i = new ! i"
    using e lcp_nth [of _ "currentStateDescr m" new]
    by (auto simp: less_Suc_eq computeChangeLevel_lcp)
  with assms have "Suc ?k \<le> length (longest_common_prefix (currentStateDescr m) new)"
    by (intro lcp_greatest) simp_all
  then show False
    by (simp add: computeChangeLevel_lcp)
qed

lemma in_set_dropD:
  assumes "x \<in> set (drop k xs)"
  shows "\<exists>i. k \<le> i \<and> i < length xs \<and> x = xs ! i"
proof -
  from assms obtain i where "i < length (drop k xs)" "drop k xs ! i = x"
    by (auto simp: in_set_conv_nth)
  then have "k \<le> k + i \<and> k + i < length xs \<and> x = xs ! (k + i)"
    by auto
  then show ?thesis by blast
qed

lemma exits_enters_disjoint:
  assumes inv: "invariant m"
    and old: "nodes_of (heap m) worldState (currentStateDescr m) = Some old"
    and bs: "nodes_of (heap m) worldState (take j new) = Some bs"
    and new: "Undefined \<notin> set new"
  shows "set (drop (computeChangeLevel m new) old) \<inter> set (drop (computeChangeLevel m new) bs) = {}"
proof (rule ccontr)
  let ?k = "computeChangeLevel m new"
  let ?cur = "currentStateDescr m"
  from inv have wf: "wf_heap (heap m)" and u: "Undefined \<notin> set ?cur"
    by (simp_all add: invariant_def)
  assume "set (drop ?k old) \<inter> set (drop ?k bs) \<noteq> {}"
  then obtain x where "x \<in> set (drop ?k old)" "x \<in> set (drop ?k bs)"
    by blast
  then obtain i i' where i: "?k \<le> i" "i < length old" "x = old ! i"
    and i': "?k \<le> i'" "i' < length bs" "x = bs ! i'"
    by (blast dest: in_set_dropD)
  from nodes_of_injective [OF wf old bs i(2) i'(2)] i(3) i'(3)
  have "\<forall>l\<le>i. to_key (?cur ! l) = to_key (take j new ! l)" and ii: "i = i'"
    by simp_all
  with i(1) have k: "to_key (?cur ! ?k) = to_key (take j new ! ?k)"
    by blast
  have lo: "length old = length ?cur" and lb: "length bs = length (take j new)"
    using old bs by (simp_all add: nodes_of_length)
  from i lo have kc: "?k < length ?cur" by simp
  from i' lb have kn: "?k < length new" "?k < j" by simp_all
  then have t: "take j new ! ?k = new ! ?k" by simp
  from kc u have "?cur ! ?k \<noteq> Undefined"
    by (metis nth_mem)
  moreover from kn new have "new ! ?k \<noteq> Undefined"
    by (metis nth_mem)
  ultimately have "?cur ! ?k = new ! ?k"
    using k t by (simp add: to_key_inject)
  with changeLevel_differs [OF kc kn(1)] show False
    by simp
qed

section \<open>Outcomes of registerState\<close>




section \<open>The cascade under a caller that registers states\<close>







lemma enter_func_looping [simp]:
  "enter_func (new_State n looping_context) = callContextEnterFunc"
  "context_obj (new_State n looping_context) = looping_context"
  by (simp_all add: new_State_def looping_context_def)




section \<open>Callers that leave the heap as it is\<close>











text \<open>
  With functions that do nothing, the walks and the loop are those of the first part: what
  is proved there of \<^verbatim>\<open>changeState\<close> holds of the program whenever the callbacks leave the
  manager alone.
\<close>

lemma run_func_with_silent: "run_func_with silent f a m = (Normal, m)"
  by (cases f) (simp_all add: silent_def)

lemma call_enter_with_silent: "call_enter_with silent m s = call_enter m s"
  by (cases s) (simp_all add: run_func_with_silent)

lemma call_exit_with_silent: "call_exit_with silent m s = call_exit m s"
  by (cases s) (simp_all add: run_func_with_silent)

lemma callExits_with_silent: "callExits_with silent m exitStates = callExits m exitStates"
proof (induction exitStates arbitrary: m rule: rev_induct)
  case Nil
  show ?case by (simp add: callExits_with.simps callExits.simps)
next
  case (snoc x xs)
  show ?case
    by (subst callExits_with.simps, subst callExits.simps)
       (simp add: call_exit_with_silent snoc.IH split: prod.splits completion.splits)
qed

lemma enterStates_with_silent:
  "enterStates_with silent m state p i changeLevel forceAll = enterStates m state p i changeLevel forceAll"
  by (induction p arbitrary: m state i)
     (simp_all add: call_enter_with_silent
        cong: sum.case_cong prod.case_cong completion.case_cong if_cong)

lemma cascade_with_silent_le:
  assumes "enterDefaultSubstates_with cb m state = Some r"
  shows "cb = silent \<longrightarrow> enterDefaultSubstates m state = Some r"
proof (rule enterDefaultSubstates_with.raw_induct
    [where P = "\<lambda>cb m state r. cb = silent \<longrightarrow> enterDefaultSubstates m state = Some r", OF _ assms])
  fix f :: "Caller \<Rightarrow> StateManager \<Rightarrow> objref \<Rightarrow> (completion \<times> StateManager) option"
    and cb m state r
  assume IH: "\<And>cb m state r. f cb m state = Some r \<Longrightarrow>
      cb = silent \<longrightarrow> enterDefaultSubstates m state = Some r"
    and body: "(case getDefaultSubstate (heap m) state of
        Inl e \<Rightarrow> Some (Throw e, m)
      | Inr None \<Rightarrow> Some (Normal, m)
      | Inr (Some s) \<Rightarrow>
          (case call_enter_with cb m s of
             (Throw e, m') \<Rightarrow> Some (Throw e, m')
           | (Normal, m') \<Rightarrow>
               (case getName (heap m') s of
                  Inl e \<Rightarrow> Some (Throw e, m')
                | Inr n \<Rightarrow> f cb (m'\<lparr>currentStateDescr := currentStateDescr m' @ [n]\<rparr>) s))) = Some r"
  show "cb = silent \<longrightarrow> enterDefaultSubstates m state = Some r"
  proof
    assume s: "cb = silent"
    from IH have IH': "\<And>m state r. f silent m state = Some r \<Longrightarrow> enterDefaultSubstates m state = Some r"
      by blast
    from body show "enterDefaultSubstates m state = Some r"
      unfolding s call_enter_with_silent
      by (subst enterDefaultSubstates.simps)
         (auto intro: IH' split: sum.splits option.splits prod.splits completion.splits)
  qed
qed

lemma cascade_silent_le:
  assumes "enterDefaultSubstates m state = Some r"
  shows "enterDefaultSubstates_with silent m state = Some r"
proof (rule enterDefaultSubstates.raw_induct
    [where P = "\<lambda>m state r. enterDefaultSubstates_with silent m state = Some r", OF _ assms])
  fix f :: "StateManager \<Rightarrow> objref \<Rightarrow> (completion \<times> StateManager) option"
    and m state r
  assume IH: "\<And>m state r. f m state = Some r \<Longrightarrow> enterDefaultSubstates_with silent m state = Some r"
    and body: "(case getDefaultSubstate (heap m) state of
        Inl e \<Rightarrow> Some (Throw e, m)
      | Inr None \<Rightarrow> Some (Normal, m)
      | Inr (Some s) \<Rightarrow>
          (case call_enter m s of
             (Throw e, m') \<Rightarrow> Some (Throw e, m')
           | (Normal, m') \<Rightarrow>
               (case getName (heap m') s of
                  Inl e \<Rightarrow> Some (Throw e, m')
                | Inr n \<Rightarrow> f (m'\<lparr>currentStateDescr := currentStateDescr m' @ [n]\<rparr>) s))) = Some r"
  from body show "enterDefaultSubstates_with silent m state = Some r"
    by (subst enterDefaultSubstates_with.simps)
       (auto simp: call_enter_with_silent intro: IH
          split: sum.splits option.splits prod.splits completion.splits)
qed

lemma cascade_with_silent:
  "enterDefaultSubstates_with silent m state = enterDefaultSubstates m state"
proof (cases "enterDefaultSubstates m state")
  case (Some r)
  then show ?thesis by (simp add: cascade_silent_le)
next
  case None
  show ?thesis
  proof (cases "enterDefaultSubstates_with silent m state")
    case None
    with \<open>enterDefaultSubstates m state = None\<close> show ?thesis by simp
  next
    case (Some r)
    from cascade_with_silent_le [OF Some] \<open>enterDefaultSubstates m state = None\<close> show ?thesis
      by simp
  qed
qed

lemma changeState_with_silent: "changeState_with silent m newStateStr forceAll = changeState m newStateStr forceAll"
  unfolding changeState_with_def changeState_def callExits_with_silent enterStates_with_silent
    cascade_with_silent
  by (rule refl)

text \<open>
  When the callbacks only leave the event in the log, a call of \<^verbatim>\<open>changeState\<close> on a
  reachable manager ends, and the loop over the default substates enters fewer states
  than the heap holds beyond the state it starts at.
\<close>

lemma default_cascade_bound:
  assumes "reachable m"
  shows "(\<exists>r. changeState m newStateStr forceAll = Some r)
     \<and> (\<forall>a<length (heap m). \<forall>m2. heap m2 = heap m \<longrightarrow>
           (\<exists>c cs. enterDefaultSubstates m2 (StateObj a) = Some (c, cascaded m2 cs)
                  \<and> length cs < length (heap m) - a))"
proof
  from assms have inv: "invariant m"
    by (rule reachable_invariant)
  then have wf: "wf_heap (heap m)"
    by (simp add: invariant_def)
  from inv obtain old where old: "nodes_of (heap m) worldState (currentStateDescr m) = Some old"
    by (auto simp: invariant_def)
  show "\<exists>r. changeState m newStateStr forceAll = Some r"
  proof (cases "nodes_of (heap m) worldState (stateDescrFromStateStr newStateStr)")
    case None
    from changeState_unresolved [OF old None, of forceAll] show ?thesis by blast
  next
    case (Some as)
    from changeState_resolved [OF wf old Some, of forceAll] show ?thesis by blast
  qed
  show "\<forall>a<length (heap m). \<forall>m2. heap m2 = heap m \<longrightarrow>
           (\<exists>c cs. enterDefaultSubstates m2 (StateObj a) = Some (c, cascaded m2 cs)
                  \<and> length cs < length (heap m) - a)"
  proof (intro allI impI)
    fix a and m2 :: StateManager
    assume a: "a < length (heap m)" and h: "heap m2 = heap m"
    then have wf2: "wf_heap (heap m2)" and a2: "a < length (heap m2)"
      using wf by simp_all
    from cascade_total [OF wf2 a2] obtain cs where p: "default_path (heap m2) a cs"
      and r: "enterDefaultSubstates m2 (StateObj a) = Some (Normal, cascaded m2 cs)
              \<or> enterDefaultSubstates m2 (StateObj a) = Some (Throw TypeError, cascaded m2 cs)"
      by blast
    from default_path_length [OF p wf2 a2] h have "length cs < length (heap m) - a"
      by simp
    with r show "\<exists>c cs. enterDefaultSubstates m2 (StateObj a) = Some (c, cascaded m2 cs)
                  \<and> length cs < length (heap m) - a"
      by blast
  qed
qed

section \<open>The properties of the specification\<close>

text \<open>
  C1. The change level that \<^verbatim>\<open>changeState\<close> computes for a target path string is the
  length of the longest common prefix of the current and the new state description: the
  two agree below it, and no longer agreeing prefix exists. With \<^verbatim>\<open>forceAll\<close> unset,
  going from \<^verbatim>\<open>a.b.c\<close> to \<^verbatim>\<open>a.b.d\<close> calls exit on \<^verbatim>\<open>c\<close> and enter on \<^verbatim>\<open>d\<close> only, and
  going from \<^verbatim>\<open>a.b\<close> to \<^verbatim>\<open>a.c.d\<close> calls exit on \<^verbatim>\<open>b\<close>, then enter on \<^verbatim>\<open>c\<close> and on \<^verbatim>\<open>d\<close>.
\<close>

theorem changeLevel_longest_common_prefix:
  "computeChangeLevel m (stateDescrFromStateStr newStateStr)
     = length (longest_common_prefix (currentStateDescr m) (stateDescrFromStateStr newStateStr))
   \<and> (\<forall>i < computeChangeLevel m (stateDescrFromStateStr newStateStr).
         currentStateDescr m ! i = stateDescrFromStateStr newStateStr ! i)
   \<and> (\<forall>k. k \<le> length (currentStateDescr m) \<and> k \<le> length (stateDescrFromStateStr newStateStr)
          \<and> (\<forall>i<k. currentStateDescr m ! i = stateDescrFromStateStr newStateStr ! i)
        \<longrightarrow> k \<le> computeChangeLevel m (stateDescrFromStateStr newStateStr))
   \<and> currentState (transition example_tree ''a.b.c'' False) = ''a.b.c''
   \<and> map_option (\<lambda>(c, m'). (c, currentState m', calls m'))
         (changeState (transition example_tree ''a.b.c'' False) ''a.b.d'' False)
       = Some (Normal, ''a.b.d'',
               calls (transition example_tree ''a.b.c'' False)
                 @ [Exit 3 (Some (Str ''c'')), Enter 4 (Some (Str ''d''))])
   \<and> currentState (transition example_tree ''a.b'' False) = ''a.b''
   \<and> map_option (\<lambda>(c, m'). (c, currentState m', calls m'))
         (changeState (transition example_tree ''a.b'' False) ''a.c.d'' False)
       = Some (Normal, ''a.c.d'',
               calls (transition example_tree ''a.b'' False)
                 @ [Exit 2 (Some (Str ''b'')), Enter 5 (Some (Str ''c'')), Enter 6 (Some (Str ''d''))])"
proof (intro conjI)
  show "computeChangeLevel m (stateDescrFromStateStr newStateStr)
     = length (longest_common_prefix (currentStateDescr m) (stateDescrFromStateStr newStateStr))"
    by (rule computeChangeLevel_lcp)
  show "\<forall>i < computeChangeLevel m (stateDescrFromStateStr newStateStr).
         currentStateDescr m ! i = stateDescrFromStateStr newStateStr ! i"
    using lcp_nth [of _ "currentStateDescr m" "stateDescrFromStateStr newStateStr"]
    unfolding computeChangeLevel_lcp by blast
  show "\<forall>k. k \<le> length (currentStateDescr m) \<and> k \<le> length (stateDescrFromStateStr newStateStr)
          \<and> (\<forall>i<k. currentStateDescr m ! i = stateDescrFromStateStr newStateStr ! i)
        \<longrightarrow> k \<le> computeChangeLevel m (stateDescrFromStateStr newStateStr)"
    using lcp_greatest [of _ "currentStateDescr m" "stateDescrFromStateStr newStateStr"]
    unfolding computeChangeLevel_lcp by blast
  show "currentState (transition example_tree ''a.b.c'' False) = ''a.b.c''"
    by code_simp
  show "map_option (\<lambda>(c, m'). (c, currentState m', calls m'))
         (changeState (transition example_tree ''a.b.c'' False) ''a.b.d'' False)
       = Some (Normal, ''a.b.d'',
               calls (transition example_tree ''a.b.c'' False)
                 @ [Exit 3 (Some (Str ''c'')), Enter 4 (Some (Str ''d''))])"
    by code_simp
  show "currentState (transition example_tree ''a.b'' False) = ''a.b''"
    by code_simp
  show "map_option (\<lambda>(c, m'). (c, currentState m', calls m'))
         (changeState (transition example_tree ''a.b'' False) ''a.c.d'' False)
       = Some (Normal, ''a.c.d'',
               calls (transition example_tree ''a.b'' False)
                 @ [Exit 2 (Some (Str ''b'')), Enter 5 (Some (Str ''c'')), Enter 6 (Some (Str ''d''))])"
    by code_simp
qed

theorem changeLevel_longest_common_prefix_witness:
  "computeChangeLevel (transition example_tree ''a.b'' False) (stateDescrFromStateStr ''a.c.d'') = Suc 0
   \<and> currentStateDescr (transition example_tree ''a.b'' False) ! 0 = stateDescrFromStateStr ''a.c.d'' ! 0"
proof
  show k: "computeChangeLevel (transition example_tree ''a.b'' False) (stateDescrFromStateStr ''a.c.d'') = Suc 0"
    by code_simp
  have "\<forall>i < computeChangeLevel (transition example_tree ''a.b'' False) (stateDescrFromStateStr ''a.c.d'').
         currentStateDescr (transition example_tree ''a.b'' False) ! i = stateDescrFromStateStr ''a.c.d'' ! i"
    by (rule changeLevel_longest_common_prefix
               [of "transition example_tree ''a.b'' False" "''a.c.d''", THEN conjunct2, THEN conjunct1])
  then show "currentStateDescr (transition example_tree ''a.b'' False) ! 0 = stateDescrFromStateStr ''a.c.d'' ! 0"
    unfolding k by blast
qed

text \<open>
  C2. A call of \<^verbatim>\<open>changeState\<close> that returns, on a reachable manager, appends to the
  call log: first the exit calls, on the states of the current description at index at
  least the change level (on all of them with \<^verbatim>\<open>forceAll\<close>), deepest first; then the
  enter calls, on the states of the new description at index at least the change level
  (all with \<^verbatim>\<open>forceAll\<close>), shallowest first; last the enter calls of the default
  substates, which the cascade appends to the description. So every exit call is before
  every enter call, and the states entered are those of the final description from the
  change level on.
\<close>

theorem changeState_call_order:
  assumes "reachable m" and "changeState m newStateStr forceAll = Some (Normal, m')"
  shows "\<exists>old as cs. nodes_of (heap m) worldState (currentStateDescr m) = Some old
     \<and> nodes_of (heap m) worldState (stateDescrFromStateStr newStateStr) = Some as
     \<and> default_chain (heap m) (last (worldState # as)) cs
     \<and> nodes_of (heap m) worldState (currentStateDescr m') = Some (as @ cs)
     \<and> calls m' = calls m
          @ map (exit_event (heap m))
              (rev (drop (if forceAll then 0 else computeChangeLevel m (stateDescrFromStateStr newStateStr)) old))
          @ map (enter_event (heap m))
              (drop (if forceAll then 0 else computeChangeLevel m (stateDescrFromStateStr newStateStr)) as)
          @ map (enter_event (heap m)) cs"
proof -
  from assms(1) have inv: "invariant m"
    by (rule reachable_invariant)
  from changeState_Normal [OF inv assms(2)] obtain old as cs
    where old: "nodes_of (heap m) worldState (currentStateDescr m) = Some old"
      and as: "nodes_of (heap m) worldState (stateDescrFromStateStr newStateStr) = Some as"
      and ch: "default_chain (heap m) (last (worldState # as)) cs"
      and fin: "nodes_of (heap m) worldState (currentStateDescr m') = Some (as @ cs)"
      and m': "m' = cascaded ((transitioned m forceAll (stateDescrFromStateStr newStateStr) old as)
                          \<lparr>currentStateDescr := stateDescrFromStateStr newStateStr\<rparr>) cs"
    by blast
  have "calls m' = calls m
          @ map (exit_event (heap m))
              (rev (drop (if forceAll then 0 else computeChangeLevel m (stateDescrFromStateStr newStateStr)) old))
          @ map (enter_event (heap m))
              (drop (if forceAll then 0 else computeChangeLevel m (stateDescrFromStateStr newStateStr)) as)
          @ map (enter_event (heap m)) cs"
    by (simp add: m')
  with old as ch fin show ?thesis
    by blast
qed

theorem changeState_call_order_witness:
  "reachable (transition example_tree ''a.b.c'' False)
   \<and> changeState (transition example_tree ''a.b.c'' False) ''a.c.d'' False
       = Some (Normal, transition (transition example_tree ''a.b.c'' False) ''a.c.d'' False)
   \<and> (\<exists>old as cs.
         nodes_of (heap (transition example_tree ''a.b.c'' False)) worldState
           (currentStateDescr (transition example_tree ''a.b.c'' False)) = Some old
       \<and> nodes_of (heap (transition example_tree ''a.b.c'' False)) worldState
           (stateDescrFromStateStr ''a.c.d'') = Some as
       \<and> calls (transition (transition example_tree ''a.b.c'' False) ''a.c.d'' False)
          = calls (transition example_tree ''a.b.c'' False)
          @ map (exit_event (heap (transition example_tree ''a.b.c'' False)))
              (rev (drop (if False then 0 else computeChangeLevel (transition example_tree ''a.b.c'' False)
                     (stateDescrFromStateStr ''a.c.d'')) old))
          @ map (enter_event (heap (transition example_tree ''a.b.c'' False)))
              (drop (if False then 0 else computeChangeLevel (transition example_tree ''a.b.c'' False)
                     (stateDescrFromStateStr ''a.c.d'')) as)
          @ map (enter_event (heap (transition example_tree ''a.b.c'' False))) cs)
   \<and> calls (transition (transition example_tree ''a.b.c'' False) ''a.c.d'' False)
       = [Enter 1 (Some (Str ''a'')), Enter 2 (Some (Str ''b'')), Enter 3 (Some (Str ''c'')),
          Exit 3 (Some (Str ''c'')), Exit 2 (Some (Str ''b'')),
          Enter 5 (Some (Str ''c'')), Enter 6 (Some (Str ''d''))]"
proof -
  let ?m = "transition example_tree ''a.b.c'' False"
  have r: "reachable ?m"
    by (intro reachable_transition reachable_example_tree)
  have n: "map_option fst (changeState ?m ''a.c.d'' False) = Some Normal"
    by code_simp
  have c: "changeState ?m ''a.c.d'' False = Some (Normal, transition ?m ''a.c.d'' False)"
    using n by (auto simp: transition_def)
  have l: "calls (transition ?m ''a.c.d'' False)
       = [Enter 1 (Some (Str ''a'')), Enter 2 (Some (Str ''b'')), Enter 3 (Some (Str ''c'')),
          Exit 3 (Some (Str ''c'')), Exit 2 (Some (Str ''b'')),
          Enter 5 (Some (Str ''c'')), Enter 6 (Some (Str ''d''))]"
    by code_simp
  from changeState_call_order [OF r c] r c l show ?thesis
    by blast
qed

text \<open>
  C3. After a call of \<^verbatim>\<open>changeState\<close> with the string \<open>p\<close> that returns, on a reachable
  manager, \<open>p\<close> resolves, the cascade has followed the default substates from the state
  \<open>p\<close> names until one has no default, and \<^verbatim>\<open>currentState()\<close> is \<open>p\<close> followed by a dot
  and the name of each of them in turn; it is \<open>p\<close> itself when that state has no default
  substate. With \<^verbatim>\<open>a\<close> defaulting to \<^verbatim>\<open>b\<close> and \<^verbatim>\<open>b\<close> to \<^verbatim>\<open>c\<close>, \<^verbatim>\<open>changeState('a')\<close> gives
  \<^verbatim>\<open>a.b.c\<close>.
\<close>

theorem changeState_currentState:
  assumes "reachable m" and "changeState m p forceAll = Some (Normal, m')"
  shows "(\<exists>as cs ks. nodes_of (heap m) worldState (stateDescrFromStateStr p) = Some as
           \<and> default_chain (heap m) (last (worldState # as)) cs
           \<and> map (\<lambda>c. name (heap m ! c)) cs = map Str ks
           \<and> currentStateDescr m' = stateDescrFromStateStr p @ map Str ks
           \<and> currentState m' = p @ concat (map (\<lambda>k. ''.'' @ k) ks)
           \<and> (getDefaultSubstate (heap m) (StateObj (last (worldState # as))) = Inr None
                \<longrightarrow> currentState m' = p))
     \<and> currentState (transition default_tree ''a'' False) = ''a.b.c''"
proof (intro conjI)
  let ?new = "stateDescrFromStateStr p"
  from assms(1) have inv: "invariant m"
    by (rule reachable_invariant)
  then have wf: "wf_heap (heap m)"
    by (simp add: invariant_def)
  from changeState_Normal [OF inv assms(2)] obtain old as cs
    where as: "nodes_of (heap m) worldState ?new = Some as"
      and ch: "default_chain (heap m) (last (worldState # as)) cs"
      and u: "Undefined \<notin> set (map (\<lambda>c. name (heap m ! c)) cs)"
      and m': "m' = cascaded ((transitioned m forceAll ?new old as)\<lparr>currentStateDescr := ?new\<rparr>) cs"
    by blast
  from defined_names [OF u] obtain ks where ks: "map (\<lambda>c. name (heap m ! c)) cs = map Str ks"
    by blast
  have d: "currentStateDescr m' = ?new @ map Str ks"
    by (simp add: m' ks)
  have s: "currentState m' = p @ concat (map (\<lambda>k. ''.'' @ k) ks)"
  proof (cases "?new = []")
    case True
    with as have "as = []" by simp
    with ch wf have "cs = []"
      by (simp add: default_chain_world)
    with ks have "ks = []" by simp
    with d show ?thesis
      using currentState_stateDescr [of p] by (simp add: currentState_def)
  next
    case False
    then show ?thesis
      using currentState_stateDescr [of p] by (simp add: currentState_def d js_join_append_Str)
  qed
  have e: "getDefaultSubstate (heap m) (StateObj (last (worldState # as))) = Inr None
                \<longrightarrow> currentState m' = p"
  proof
    assume "getDefaultSubstate (heap m) (StateObj (last (worldState # as))) = Inr None"
    with ch have "cs = []"
      by (auto elim: default_chain.cases)
    with ks have "ks = []" by simp
    with s show "currentState m' = p" by simp
  qed
  from as ch ks d s e
  show "\<exists>as cs ks. nodes_of (heap m) worldState ?new = Some as
           \<and> default_chain (heap m) (last (worldState # as)) cs
           \<and> map (\<lambda>c. name (heap m ! c)) cs = map Str ks
           \<and> currentStateDescr m' = ?new @ map Str ks
           \<and> currentState m' = p @ concat (map (\<lambda>k. ''.'' @ k) ks)
           \<and> (getDefaultSubstate (heap m) (StateObj (last (worldState # as))) = Inr None
                \<longrightarrow> currentState m' = p)"
    by blast
  show "currentState (transition default_tree ''a'' False) = ''a.b.c''"
    by code_simp
qed

theorem changeState_currentState_witness:
  "reachable default_tree
   \<and> changeState default_tree ''a'' False = Some (Normal, transition default_tree ''a'' False)
   \<and> (\<exists>as cs ks. nodes_of (heap default_tree) worldState (stateDescrFromStateStr ''a'') = Some as
           \<and> default_chain (heap default_tree) (last (worldState # as)) cs
           \<and> map (\<lambda>c. name (heap default_tree ! c)) cs = map Str ks
           \<and> currentStateDescr (transition default_tree ''a'' False) = stateDescrFromStateStr ''a'' @ map Str ks
           \<and> currentState (transition default_tree ''a'' False) = ''a'' @ concat (map (\<lambda>k. ''.'' @ k) ks))
   \<and> currentState (transition default_tree ''a'' False) = ''a.b.c''"
proof -
  have n: "map_option fst (changeState default_tree ''a'' False) = Some Normal"
    by code_simp
  have c: "changeState default_tree ''a'' False = Some (Normal, transition default_tree ''a'' False)"
    using n by (auto simp: transition_def)
  from changeState_currentState [OF reachable_default_tree c] reachable_default_tree c
  show ?thesis
    by blast
qed

text \<open>
  C4. On a reachable manager, when \<^verbatim>\<open>changeState\<close> throws \<^verbatim>\<open>UnknownSubstate\<close>, it does
  so in the enter walk at the first segment of the new description that is not in the
  substates reached so far. The heap and the current state description are as before the
  call: the description is assigned only after both walks. The call log has grown by the
  exit calls of the exit walk and by the enter calls on the states resolved before that
  segment, from the change level on (from the first state on with \<^verbatim>\<open>forceAll\<close>, as in a
  call that returns), and by nothing else: no entered state is exited again and no exited
  state is entered to undo the exit. Without \<^verbatim>\<open>forceAll\<close> no state is both exited and
  entered. A new description that does not resolve never lets \<^verbatim>\<open>changeState\<close> return: it
  throws, and the current state description stays.
\<close>

theorem changeState_abort:
  assumes "reachable m"
  shows "(changeState m newStateStr forceAll = Some (Throw UnknownSubstate, m') \<longrightarrow>
          (\<exists>old j bs. nodes_of (heap m) worldState (currentStateDescr m) = Some old
             \<and> j < length (stateDescrFromStateStr newStateStr)
             \<and> nodes_of (heap m) worldState (take j (stateDescrFromStateStr newStateStr)) = Some bs
             \<and> \<not> in_substates (heap m ! last (worldState # bs))
                    (to_key (stateDescrFromStateStr newStateStr ! j))
             \<and> heap m' = heap m
             \<and> currentStateDescr m' = currentStateDescr m
             \<and> calls m' = calls m
                  @ map (exit_event (heap m))
                      (rev (drop (if forceAll then 0
                                  else computeChangeLevel m (stateDescrFromStateStr newStateStr)) old))
                  @ map (enter_event (heap m))
                      (drop (if forceAll then 0
                             else computeChangeLevel m (stateDescrFromStateStr newStateStr)) bs)
             \<and> (\<not> forceAll \<longrightarrow>
                   set (drop (computeChangeLevel m (stateDescrFromStateStr newStateStr)) old)
                     \<inter> set (drop (computeChangeLevel m (stateDescrFromStateStr newStateStr)) bs) = {})))
     \<and> (nodes_of (heap m) worldState (stateDescrFromStateStr newStateStr) = None \<longrightarrow>
          (\<exists>e m''. changeState m newStateStr forceAll = Some (Throw e, m'')
             \<and> (e = UnknownSubstate \<or> e = TypeError)
             \<and> currentStateDescr m'' = currentStateDescr m))"
proof (intro conjI impI)
  let ?new = "stateDescrFromStateStr newStateStr"
  let ?k = "computeChangeLevel m ?new"
  from assms have inv: "invariant m"
    by (rule reachable_invariant)
  then have wf: "wf_heap (heap m)"
    by (simp add: invariant_def)
  from inv obtain old where old: "nodes_of (heap m) worldState (currentStateDescr m) = Some old"
    by (auto simp: invariant_def)
  {
    assume c: "changeState m newStateStr forceAll = Some (Throw UnknownSubstate, m')"
    have un: "nodes_of (heap m) worldState ?new = None"
    proof (cases "nodes_of (heap m) worldState ?new")
      case None
      then show ?thesis .
    next
      case (Some as)
      from changeState_resolved [OF wf old Some, of forceAll] c show ?thesis
        by auto
    qed
    from changeState_unresolved [OF old un, of forceAll] c obtain j bs
      where j: "j < length ?new"
        and bs: "nodes_of (heap m) worldState (take j ?new) = Some bs"
        and mo: "map_of (substates (heap m ! last (worldState # bs))) (to_key (?new ! j)) = None"
        and e: "(if to_key (?new ! j) \<in> set Object_prototype_keys then TypeError else UnknownSubstate)
                  = UnknownSubstate"
        and m': "m' = transitioned m forceAll ?new old bs"
      by auto
    from e have "to_key (?new ! j) \<notin> set Object_prototype_keys"
      by (simp split: if_splits)
    with mo have ni: "\<not> in_substates (heap m ! last (worldState # bs)) (to_key (?new ! j))"
      by (simp add: in_substates_def map_of_eq_None_iff)
    have ca: "calls m' = calls m
                  @ map (exit_event (heap m)) (rev (drop (if forceAll then 0 else ?k) old))
                  @ map (enter_event (heap m)) (drop (if forceAll then 0 else ?k) bs)"
      by (simp add: m')
    have di: "\<not> forceAll \<longrightarrow> set (drop ?k old) \<inter> set (drop ?k bs) = {}"
      using exits_enters_disjoint [OF inv old bs stateDescrFromStateStr_defined] by simp
    from old j bs ni ca di m'
    show "\<exists>old j bs. nodes_of (heap m) worldState (currentStateDescr m) = Some old
             \<and> j < length ?new
             \<and> nodes_of (heap m) worldState (take j ?new) = Some bs
             \<and> \<not> in_substates (heap m ! last (worldState # bs)) (to_key (?new ! j))
             \<and> heap m' = heap m
             \<and> currentStateDescr m' = currentStateDescr m
             \<and> calls m' = calls m
                  @ map (exit_event (heap m)) (rev (drop (if forceAll then 0 else ?k) old))
                  @ map (enter_event (heap m)) (drop (if forceAll then 0 else ?k) bs)
             \<and> (\<not> forceAll \<longrightarrow> set (drop ?k old) \<inter> set (drop ?k bs) = {})"
      by (intro exI [of _ old] exI [of _ j] exI [of _ bs]) simp
  }
  {
    assume un: "nodes_of (heap m) worldState ?new = None"
    from changeState_unresolved [OF old un, of forceAll] obtain j bs
      where "changeState m newStateStr forceAll
         = Some (Throw (if to_key (?new ! j) \<in> set Object_prototype_keys then TypeError else UnknownSubstate),
                 transitioned m forceAll ?new old bs)"
      by blast
    then show "\<exists>e m''. changeState m newStateStr forceAll = Some (Throw e, m'')
             \<and> (e = UnknownSubstate \<or> e = TypeError)
             \<and> currentStateDescr m'' = currentStateDescr m"
      by (cases "to_key (?new ! j) \<in> set Object_prototype_keys") auto
  }
qed

theorem changeState_abort_witness:
  "reachable (transition example_tree ''a.b'' False)
   \<and> changeState (transition example_tree ''a.b'' False) ''a.c.zzz'' False
       = Some (Throw UnknownSubstate, transition (transition example_tree ''a.b'' False) ''a.c.zzz'' False)
   \<and> nodes_of (heap (transition example_tree ''a.b'' False)) worldState (stateDescrFromStateStr ''a.c.zzz'') = None
   \<and> currentStateDescr (transition (transition example_tree ''a.b'' False) ''a.c.zzz'' False)
       = currentStateDescr (transition example_tree ''a.b'' False)
   \<and> calls (transition (transition example_tree ''a.b'' False) ''a.c.zzz'' False)
       = calls (transition example_tree ''a.b'' False) @ [Exit 2 (Some (Str ''b'')), Enter 5 (Some (Str ''c''))]"
proof -
  let ?m = "transition example_tree ''a.b'' False"
  let ?m' = "transition ?m ''a.c.zzz'' False"
  have r: "reachable ?m"
    by (intro reachable_transition reachable_example_tree)
  have n: "map_option fst (changeState ?m ''a.c.zzz'' False) = Some (Throw UnknownSubstate)"
    by code_simp
  have c: "changeState ?m ''a.c.zzz'' False = Some (Throw UnknownSubstate, ?m')"
    using n by (auto simp: transition_def)
  have u: "nodes_of (heap ?m) worldState (stateDescrFromStateStr ''a.c.zzz'') = None"
    by code_simp
  have l: "calls ?m' = calls ?m @ [Exit 2 (Some (Str ''b'')), Enter 5 (Some (Str ''c''))]"
    by code_simp
  from changeState_abort [OF r, of "''a.c.zzz''" False ?m', THEN conjunct1] c
  have "currentStateDescr ?m' = currentStateDescr ?m"
    by blast
  with r c u l show ?thesis
    by blast
qed




text \<open>
  C6. In every manager reached from a new one by calls of \<^verbatim>\<open>registerState\<close> and
  \<^verbatim>\<open>changeState\<close> (the calls that threw included), the current state description
  resolves from the world state, segment by segment, by own entries of the substates, and
  the walk of the program by \<^verbatim>\<open>getSubstate\<close> succeeds on it. A further
  \<^verbatim>\<open>registerState\<close> leaves it resolving to the same states, and \<^verbatim>\<open>changeState\<close> never
  changes the heap.
\<close>

theorem currentPath_resolvable:
  assumes "reachable m"
  shows "\<exists>as. nodes_of (heap m) worldState (currentStateDescr m) = Some as
     \<and> registerState_loop (heap m) (StateObj worldState) (currentStateDescr m)
          = Inr (StateObj (last (worldState # as)))
     \<and> (\<forall>stateStr ctx.
           nodes_of (heap (snd (registerState m stateStr ctx))) worldState (currentStateDescr m) = Some as)
     \<and> (\<forall>newStateStr forceAll c m'.
           changeState m newStateStr forceAll = Some (c, m') \<longrightarrow> heap m' = heap m)"
proof -
  from assms have inv: "invariant m"
    by (rule reachable_invariant)
  then obtain as where as: "nodes_of (heap m) worldState (currentStateDescr m) = Some as"
    by (auto simp: invariant_def)
  have "registerState_loop (heap m) (StateObj worldState) (currentStateDescr m)
          = Inr (StateObj (last (worldState # as)))"
    using as by (rule nodes_of_walk)
  moreover have "\<forall>stateStr ctx.
      nodes_of (heap (snd (registerState m stateStr ctx))) worldState (currentStateDescr m) = Some as"
    using registerState_nodes [OF inv as] by blast
  moreover have "\<forall>newStateStr forceAll c m'.
           changeState m newStateStr forceAll = Some (c, m') \<longrightarrow> heap m' = heap m"
    using changeState_invariant [OF inv] by blast
  ultimately show ?thesis
    using as by blast
qed

theorem currentPath_resolvable_witness:
  "reachable (transition default_tree ''a'' False)
   \<and> currentStateDescr (transition default_tree ''a'' False) = [Str ''a'', Str ''b'', Str ''c'']
   \<and> (\<exists>as. nodes_of (heap (transition default_tree ''a'' False)) worldState
              (currentStateDescr (transition default_tree ''a'' False)) = Some as)"
proof -
  have r: "reachable (transition default_tree ''a'' False)"
    by (intro reachable_transition reachable_default_tree)
  have "currentStateDescr (transition default_tree ''a'' False) = [Str ''a'', Str ''b'', Str ''c'']"
    by code_simp
  with currentPath_resolvable [OF r] r show ?thesis
    by blast
qed

text \<open>
  C7. When the current state description is the parsed target, the change level is the
  full length, and \<^verbatim>\<open>changeState\<close> with \<^verbatim>\<open>forceAll\<close> still calls exit on every state
  of the description, deepest first, then enter on every one, shallowest first, and then
  runs the cascade. On \<^verbatim>\<open>a.b\<close> it exits \<^verbatim>\<open>b\<close>, \<^verbatim>\<open>a\<close> and enters \<^verbatim>\<open>a\<close>, \<^verbatim>\<open>b\<close>; without
  \<^verbatim>\<open>forceAll\<close> the same call makes no call at all.
\<close>

theorem forceAll_reenters:
  assumes "reachable m" and "currentStateDescr m = stateDescrFromStateStr p"
  shows "computeChangeLevel m (stateDescrFromStateStr p) = length (stateDescrFromStateStr p)
     \<and> (\<exists>old cs c m'. nodes_of (heap m) worldState (stateDescrFromStateStr p) = Some old
           \<and> default_path (heap m) (last (worldState # old)) cs
           \<and> changeState m p True = Some (c, m')
           \<and> (c = Normal \<or> c = Throw TypeError)
           \<and> calls m' = calls m @ map (exit_event (heap m)) (rev old)
                 @ map (enter_event (heap m)) old @ map (enter_event (heap m)) cs)
     \<and> map_option (\<lambda>(c, m'). (c, currentState m', calls m'))
         (changeState (transition example_tree ''a.b'' False) ''a.b'' True)
       = Some (Normal, ''a.b'',
               calls (transition example_tree ''a.b'' False)
                 @ [Exit 2 (Some (Str ''b'')), Exit 1 (Some (Str ''a'')),
                    Enter 1 (Some (Str ''a'')), Enter 2 (Some (Str ''b''))])
     \<and> map_option (\<lambda>(c, m'). (c, currentState m', calls m'))
         (changeState (transition example_tree ''a.b'' False) ''a.b'' False)
       = Some (Normal, ''a.b'', calls (transition example_tree ''a.b'' False))"
proof (intro conjI)
  let ?new = "stateDescrFromStateStr p"
  from assms(1) have inv: "invariant m"
    by (rule reachable_invariant)
  then have wf: "wf_heap (heap m)"
    by (simp add: invariant_def)
  from inv assms(2) obtain old where old: "nodes_of (heap m) worldState ?new = Some old"
    by (auto simp: invariant_def)
  then have old': "nodes_of (heap m) worldState (currentStateDescr m) = Some old"
    by (simp add: assms(2))
  show "computeChangeLevel m ?new = length ?new"
    using assms(2) by (rule changeLevel_same)
  from changeState_resolved [OF wf old' old, of True] obtain cs c
    where "default_path (heap m) (last (worldState # old)) cs"
      and "changeState m p True
             = Some (c, cascaded ((transitioned m True ?new old old)\<lparr>currentStateDescr := ?new\<rparr>) cs)"
      and "c = Normal \<or> c = Throw TypeError"
    by blast
  moreover have "calls (cascaded ((transitioned m True ?new old old)\<lparr>currentStateDescr := ?new\<rparr>) cs)
      = calls m @ map (exit_event (heap m)) (rev old)
                 @ map (enter_event (heap m)) old @ map (enter_event (heap m)) cs"
    by simp
  ultimately show "\<exists>old cs c m'. nodes_of (heap m) worldState ?new = Some old
           \<and> default_path (heap m) (last (worldState # old)) cs
           \<and> changeState m p True = Some (c, m')
           \<and> (c = Normal \<or> c = Throw TypeError)
           \<and> calls m' = calls m @ map (exit_event (heap m)) (rev old)
                 @ map (enter_event (heap m)) old @ map (enter_event (heap m)) cs"
    using old by blast
  show "map_option (\<lambda>(c, m'). (c, currentState m', calls m'))
         (changeState (transition example_tree ''a.b'' False) ''a.b'' True)
       = Some (Normal, ''a.b'',
               calls (transition example_tree ''a.b'' False)
                 @ [Exit 2 (Some (Str ''b'')), Exit 1 (Some (Str ''a'')),
                    Enter 1 (Some (Str ''a'')), Enter 2 (Some (Str ''b''))])"
    by code_simp
  show "map_option (\<lambda>(c, m'). (c, currentState m', calls m'))
         (changeState (transition example_tree ''a.b'' False) ''a.b'' False)
       = Some (Normal, ''a.b'', calls (transition example_tree ''a.b'' False))"
    by code_simp
qed

theorem forceAll_reenters_witness:
  "reachable (transition example_tree ''a.b'' False)
   \<and> currentStateDescr (transition example_tree ''a.b'' False) = stateDescrFromStateStr ''a.b''
   \<and> computeChangeLevel (transition example_tree ''a.b'' False) (stateDescrFromStateStr ''a.b'')
       = length (stateDescrFromStateStr ''a.b'')"
proof -
  let ?m = "transition example_tree ''a.b'' False"
  have r: "reachable ?m"
    by (intro reachable_transition reachable_example_tree)
  have c: "currentStateDescr ?m = stateDescrFromStateStr ''a.b''"
    by code_simp
  from forceAll_reenters [OF r c, THEN conjunct1] r c show ?thesis
    by blast
qed

text \<open>
  C8. On a new manager \<^verbatim>\<open>registerState('toString')\<close> throws \<^verbatim>\<open>SubstateAlreadyExists\<close>
  although the world state has no substate, and \<^verbatim>\<open>registerState('toString.y')\<close> throws a
  TypeError, not \<^verbatim>\<open>UnknownSubstate\<close>: the test \<^verbatim>\<open>in\<close> also finds what the substates
  object inherits. Registering \<^verbatim>\<open>x.y\<close> before \<^verbatim>\<open>x\<close> throws \<^verbatim>\<open>UnknownSubstate\<close>, and
  registering \<^verbatim>\<open>x\<close> twice throws \<^verbatim>\<open>SubstateAlreadyExists\<close> the second time.
\<close>

theorem registerState_inherited_key:
  "registerState new_StateManager ''toString'' ctx = (Throw SubstateAlreadyExists, new_StateManager)
   \<and> substates (heap new_StateManager ! worldState) = []
   \<and> registerState new_StateManager ''toString.y'' ctx = (Throw TypeError, new_StateManager)
   \<and> registerState new_StateManager ''x.y'' ctx = (Throw UnknownSubstate, new_StateManager)
   \<and> fst (registerState new_StateManager ''x'' ctx) = Normal
   \<and> fst (registerState (snd (registerState new_StateManager ''x'' ctx)) ''x'' ctx)
       = Throw SubstateAlreadyExists"
  by (simp add: registerState_result stateDescrFromStateStr_def new_StateManager_def
      in_substates_def substates_get_def Object_prototype_keys_def worldState_def attach_def)

text \<open>
  C9. \<^verbatim>\<open>registerState\<close> with the empty string parses it to no segment and adds a state
  directly to the world state: it throws \<^verbatim>\<open>SubstateAlreadyExists\<close> when the key
  \<^verbatim>\<open>undefined\<close> is in the world state's substates and otherwise stores a new state, whose
  name is \<^verbatim>\<open>undefined\<close>, under that key. On a new manager the new state is the one
  substate of the world state, at depth one.
\<close>

theorem registerState_empty_string:
  "stateDescrFromStateStr '''' = []
   \<and> registerState m '''' ctx =
       (if in_substates (heap m ! worldState) ''undefined'' then (Throw SubstateAlreadyExists, m)
        else (Normal, m\<lparr>heap := attach (heap m) worldState (new_State Undefined ctx)\<rparr>))
   \<and> fst (registerState new_StateManager '''' ctx) = Normal
   \<and> substates (heap (snd (registerState new_StateManager '''' ctx)) ! worldState) = [(''undefined'', 1)]
   \<and> name (heap (snd (registerState new_StateManager '''' ctx)) ! 1) = Undefined
   \<and> length (heap (snd (registerState new_StateManager '''' ctx))) = 2
   \<and> nodes_of (heap (snd (registerState new_StateManager '''' ctx))) worldState [Str ''undefined''] = Some [1]"
proof -
  have d: "stateDescrFromStateStr '''' = []"
    by (simp add: stateDescrFromStateStr_def)
  have r: "registerState m '''' ctx =
       (if in_substates (heap m ! worldState) ''undefined'' then (Throw SubstateAlreadyExists, m)
        else (Normal, m\<lparr>heap := attach (heap m) worldState (new_State Undefined ctx)\<rparr>))" for m
    by (simp add: registerState_result d)
  have f: "\<not> in_substates (heap new_StateManager ! worldState) ''undefined''"
    by (simp add: new_StateManager_def in_substates_def Object_prototype_keys_def worldState_def)
  show ?thesis
    using d r [of m] 
    by (simp add: r [of new_StateManager] f)
       (simp add: new_StateManager_def attach_def worldState_def)
qed

text \<open>
  C10. \<^verbatim>\<open>registerState\<close> leaves the current state description, and so the string
  \<^verbatim>\<open>currentState()\<close> returns, as it was, whether it returns or throws; it calls no
  callback; the heap is unchanged, or one new state object is stored and one existing
  object gets one more entry in its substates.
\<close>

theorem registerState_keeps_currentState:
  "currentState (snd (registerState m stateStr ctx)) = currentState m
   \<and> currentStateDescr (snd (registerState m stateStr ctx)) = currentStateDescr m
   \<and> calls (snd (registerState m stateStr ctx)) = calls m
   \<and> (heap (snd (registerState m stateStr ctx)) = heap m
      \<or> (\<exists>p k. fst (registerState m stateStr ctx) = Normal
            \<and> heap (snd (registerState m stateStr ctx))
            = (heap m @ [new_State k ctx])
                [p := (heap m ! p)\<lparr>substates := substates (heap m ! p) @ [(to_key k, length (heap m))]\<rparr>]))"
proof -
  from registerState_cases [of m stateStr ctx] show ?thesis
  proof (elim disjE exE)
    fix e assume "registerState m stateStr ctx = (Throw e, m)"
    then show ?thesis by simp
  next
    fix p k
    assume "registerState m stateStr ctx
        = (Normal, m\<lparr>heap := (heap m @ [new_State k ctx])
             [p := (heap m ! p)\<lparr>substates := substates (heap m ! p) @ [(to_key k, length (heap m))]\<rparr>]\<rparr>)"
    then have r: "snd (registerState m stateStr ctx)
        = m\<lparr>heap := (heap m @ [new_State k ctx])
             [p := (heap m ! p)\<lparr>substates := substates (heap m ! p) @ [(to_key k, length (heap m))]\<rparr>]\<rparr>"
      and f: "fst (registerState m stateStr ctx) = Normal"
      by simp_all
    have "\<exists>p k. fst (registerState m stateStr ctx) = Normal
            \<and> heap (snd (registerState m stateStr ctx))
            = (heap m @ [new_State k ctx])
                [p := (heap m ! p)\<lparr>substates := substates (heap m ! p) @ [(to_key k, length (heap m))]\<rparr>]"
      using f by (intro exI [of _ p] exI [of _ k]) (simp add: r)
    then show ?thesis by (simp add: r currentState_def)
  qed
qed

end
